theory Spec2Isabelle
  imports Complex_Main
begin

section \<open>Python values, errors and the random source\<close>

text \<open>
  The script \<^verbatim>\<open>backend/scripts/generate_test_data.py\<close> builds two lists of
  dictionaries from the process-wide random generator and writes them as CSV. The
  exceptions that the library calls of the script can raise are values of \<open>py_error\<close>;
  a computation that may raise returns \<open>py_error + 'a\<close>, with \<open>Inl\<close> the exception.
\<close>

datatype py_error = IndexError | ValueError | OverflowError | CsvError

text \<open>An exception raised by a step ends the computation; otherwise the next step runs.\<close>

definition py_bind :: "py_error + 'a \<Rightarrow> ('a \<Rightarrow> py_error + 'b) \<Rightarrow> py_error + 'b" where
  "py_bind x f = (case x of Inl e \<Rightarrow> Inl e | Inr v \<Rightarrow> f v)"

text \<open>
  A Python \<^verbatim>\<open>dict\<close> with string keys and string values, in insertion order. The
  dictionary literals of the script have distinct keys; \<open>map_of\<close> is the lookup.
\<close>

type_synonym dict = "(string \<times> string) list"

text \<open>
  The ambient generator of module \<^verbatim>\<open>random\<close> is an explicit infinite sequence of raw draws,
  threaded through every call. One library call consumes one draw. The library promises
  \<^verbatim>\<open>_randbelow(n)\<close> in \<open>[0, n)\<close> and \<^verbatim>\<open>random()\<close> a multiple of \<open>2^-53\<close> in
  \<open>[0, 1)\<close>; the raw draw is reduced accordingly, so every sequence is a possible run.
\<close>

type_synonym rng = "nat \<Rightarrow> nat"

definition next_draw :: "rng \<Rightarrow> nat \<times> rng" where
  "next_draw g = (g 0, \<lambda>i. g (Suc i))"

definition randbelow :: "nat \<Rightarrow> rng \<Rightarrow> nat \<times> rng" where
  "randbelow n g = (case next_draw g of (r, g') \<Rightarrow> (r mod n, g'))"

text \<open>\<^verbatim>\<open>random.choice(seq)\<close>: raises on an empty sequence, else \<^verbatim>\<open>seq[_randbelow(len(seq))]\<close>.\<close>

definition choice :: "'a list \<Rightarrow> rng \<Rightarrow> py_error + ('a \<times> rng)" where
  "choice seq g =
     (if length seq = 0 then Inl IndexError
      else case randbelow (length seq) g of (i, g') \<Rightarrow> Inr (seq ! i, g'))"

text \<open>\<^verbatim>\<open>random.randint(a, b)\<close> is \<^verbatim>\<open>randrange(a, b+1)\<close>: an empty range raises.\<close>

definition randint :: "int \<Rightarrow> int \<Rightarrow> rng \<Rightarrow> py_error + (int \<times> rng)" where
  "randint a b g =
     (let width = (b + 1) - a
      in if width > 0
         then case randbelow (nat width) g of (i, g') \<Rightarrow> Inr (a + int i, g')
         else Inl ValueError)"

text \<open>\<^verbatim>\<open>random.random()\<close>: a float \<open>k / 2^53\<close> with \<open>0 \<le> k < 2^53\<close>, held exactly as a rational.\<close>

definition py_random :: "rng \<Rightarrow> rat \<times> rng" where
  "py_random g = (case next_draw g of (r, g') \<Rightarrow> (of_nat (r mod 2 ^ 53) / 2 ^ 53, g'))"

text \<open>
  The float literal \<^verbatim>\<open>0.1\<close> of line 102 is the double nearest to one tenth,
  \<open>0x1.999999999999ap-4\<close>; comparison of two doubles is exact.
\<close>

definition ALIAS_THRESHOLD :: rat where
  "ALIAS_THRESHOLD = 3602879701896397 / 36028797018963968"

section \<open>Sample data pools\<close>

definition FIRST_NAMES :: "string list" where
  "FIRST_NAMES =
    [''James'', ''Mary'', ''John'', ''Patricia'', ''Robert'', ''Jennifer'', ''Michael'',
     ''Linda'', ''William'', ''Barbara'', ''David'', ''Elizabeth'', ''Richard'', ''Susan'',
     ''Joseph'', ''Jessica'', ''Thomas'', ''Sarah'', ''Christopher'', ''Karen'', ''Daniel'',
     ''Nancy'', ''Matthew'', ''Lisa'', ''Anthony'', ''Betty'', ''Mark'', ''Margaret'',
     ''Donald'', ''Sandra'', ''Steven'', ''Ashley'', ''Paul'', ''Kimberly'', ''Andrew'',
     ''Emily'', ''Joshua'', ''Donna'', ''Kenneth'', ''Michelle'', ''Christina'', ''George'',
     ''Laura'', ''Kevin'', ''Carol'', ''Brian'', ''Amanda'', ''Edward'']"

definition LAST_NAMES :: "string list" where
  "LAST_NAMES =
    [''Smith'', ''Johnson'', ''Williams'', ''Brown'', ''Jones'', ''Garcia'', ''Miller'',
     ''Davis'', ''Rodriguez'', ''Martinez'', ''Hernandez'', ''Lopez'', ''Gonzalez'',
     ''Wilson'', ''Anderson'', ''Thomas'', ''Taylor'', ''Moore'', ''Jackson'', ''Martin'',
     ''Lee'', ''Perez'', ''Thompson'', ''White'', ''Harris'', ''Sanchez'', ''Clark'',
     ''Ramirez'', ''Lewis'', ''Robinson'', ''Walker'', ''Young'', ''Allen'', ''King'',
     ''Wright'', ''Scott'', ''Torres'', ''Nguyen'', ''Hill'', ''Flores'', ''Green'',
     ''Adams'', ''Nelson'', ''Baker'', ''Hall'', ''Rivera'', ''Campbell'', ''Mitchell'',
     ''Carter'', ''Roberts'', ''Vargas'', ''Harper'', ''Newman'', ''Blake'', ''Walters'']"

definition COUNTRIES :: "string list" where
  "COUNTRIES =
    [''US'', ''UK'', ''CA'', ''AU'', ''DE'', ''FR'', ''IT'', ''ES'', ''NL'', ''SE'', ''NO'',
     ''DK'', ''FI'', ''IE'', ''NZ'', ''CH'', ''AT'', ''BE'', ''PT'', ''GR'', ''PL'', ''CZ'',
     ''HU'', ''RO'', ''BG'', ''HR'', ''SI'', ''SK'', ''LT'', ''LV'', ''EE'', ''JP'', ''KR'',
     ''CN'', ''IN'', ''SG'', ''MY'', ''TH'', ''PH'', ''ID'', ''VN'', ''BR'', ''MX'', ''AR'',
     ''CL'', ''CO'', ''PE'', ''VE'', ''ZA'', ''EG'']"

definition PROGRAMS :: "string list" where
  "PROGRAMS =
    [''OFAC SDN'', ''EU Sanctions'', ''UN Sanctions'', ''DFAT Sanctions'', ''HMT Sanctions'',
     ''SECO Sanctions'', ''FINMA Watchlist'', ''PEP List'']"

section \<open>Calendar arithmetic of module datetime\<close>

text \<open>
  \<^verbatim>\<open>random_date\<close> uses \<^verbatim>\<open>datetime(y, m, d)\<close>, the difference of two datetimes,
  \<^verbatim>\<open>timedelta(days=n)\<close>, the sum of a datetime and a timedelta, and \<^verbatim>\<open>strftime\<close>. All
  times of day are midnight, so a datetime is its date. The definitions follow the
  library's pure-Python implementation (proleptic Gregorian ordinals, 1 Jan of year 1 is
  day 1), with Python's floor division, which \<open>div\<close> and \<open>mod\<close> on \<open>int\<close> are.
\<close>

datatype pydate = Date (year: int) (month: int) (day: int)

definition MINYEAR :: int where "MINYEAR = 1"
definition MAXYEAR :: int where "MAXYEAR = 9999"
definition MAXORDINAL :: int where "MAXORDINAL = 3652059"

definition DAYS_IN_MONTH :: "int list" where
  "DAYS_IN_MONTH = [-1, 31, 28, 31, 30, 31, 30, 31, 31, 30, 31, 30, 31]"

definition DAYS_BEFORE_MONTH :: "int list" where
  "DAYS_BEFORE_MONTH = [-1, 0, 31, 59, 90, 120, 151, 181, 212, 243, 273, 304, 334]"

definition is_leap :: "int \<Rightarrow> bool" where
  "is_leap y = (y mod 4 = 0 \<and> (y mod 100 \<noteq> 0 \<or> y mod 400 = 0))"

definition days_before_year :: "int \<Rightarrow> int" where
  "days_before_year yr = (let y = yr - 1 in y * 365 + y div 4 - y div 100 + y div 400)"

definition days_in_month :: "int \<Rightarrow> int \<Rightarrow> int" where
  "days_in_month y m = (if m = 2 \<and> is_leap y then 29 else DAYS_IN_MONTH ! nat m)"

definition days_before_month :: "int \<Rightarrow> int \<Rightarrow> int" where
  "days_before_month y m = DAYS_BEFORE_MONTH ! nat m + (if m > 2 \<and> is_leap y then 1 else 0)"

definition ymd2ord :: "int \<Rightarrow> int \<Rightarrow> int \<Rightarrow> int" where
  "ymd2ord y m d = days_before_year y + days_before_month y m + d"

definition DI400Y :: int where "DI400Y = 146097"
definition DI100Y :: int where "DI100Y = 36524"
definition DI4Y :: int where "DI4Y = 1461"

definition ord2ymd :: "int \<Rightarrow> int \<times> int \<times> int" where
  "ord2ymd ordinal =
     (let n = ordinal - 1;
          n400 = n div DI400Y; n = n mod DI400Y;
          yr = n400 * 400 + 1;
          n100 = n div DI100Y; n = n mod DI100Y;
          n4 = n div DI4Y; n = n mod DI4Y;
          n1 = n div 365; n = n mod 365;
          yr = yr + (n100 * 100 + n4 * 4 + n1)
      in if n1 = 4 \<or> n100 = 4 then (yr - 1, 12, 31)
         else
           let leapyear = (n1 = 3 \<and> (n4 \<noteq> 24 \<or> n100 = 3));
               mth = (n + 50) div 32;
               preceding = DAYS_BEFORE_MONTH ! nat mth + (if mth > 2 \<and> leapyear then 1 else 0);
               estimate_too_large = (preceding > n);
               mth = (if estimate_too_large then mth - 1 else mth);
               preceding =
                 (if estimate_too_large
                  then preceding - (DAYS_IN_MONTH ! nat mth + (if mth = 2 \<and> leapyear then 1 else 0))
                  else preceding)
           in (yr, mth, n - preceding + 1))"

text \<open>The constructor checks its fields (\<^verbatim>\<open>_check_date_fields\<close>).\<close>

definition datetime :: "int \<Rightarrow> int \<Rightarrow> int \<Rightarrow> py_error + pydate" where
  "datetime y m d =
     (if \<not> (MINYEAR \<le> y \<and> y \<le> MAXYEAR) then Inl ValueError
      else if \<not> (1 \<le> m \<and> m \<le> 12) then Inl ValueError
      else if \<not> (1 \<le> d \<and> d \<le> days_in_month y m) then Inl ValueError
      else Inr (Date y m d))"

definition toordinal :: "pydate \<Rightarrow> int" where
  "toordinal dt = ymd2ord (year dt) (month dt) (day dt)"

definition fromordinal :: "int \<Rightarrow> py_error + pydate" where
  "fromordinal n = (case ord2ymd n of (y, m, d) \<Rightarrow> datetime y m d)"

text \<open>\<^verbatim>\<open>end - start\<close>: the \<^verbatim>\<open>days\<close> of the timedelta between two midnights.\<close>

definition delta_days :: "pydate \<Rightarrow> pydate \<Rightarrow> int" where
  "delta_days e s = toordinal e - toordinal s"

text \<open>\<^verbatim>\<open>timedelta(days=n)\<close> accepts at most 999999999 days in magnitude.\<close>

definition timedelta :: "int \<Rightarrow> py_error + int" where
  "timedelta days = (if \<bar>days\<bar> > 999999999 then Inl OverflowError else Inr days)"

text \<open>\<^verbatim>\<open>start + timedelta\<close>: the result must be a representable date.\<close>

definition date_add :: "pydate \<Rightarrow> int \<Rightarrow> py_error + pydate" where
  "date_add dt days =
     (let ord = toordinal dt + days
      in if 0 < ord \<and> ord \<le> MAXORDINAL then fromordinal ord else Inl OverflowError)"

text \<open>
  Decimal digits as \<^verbatim>\<open>strftime\<close> prints them: \<^verbatim>\<open>%m\<close> and \<^verbatim>\<open>%d\<close> are two digits,
  zero padded. \<^verbatim>\<open>%Y\<close> is the year as a decimal number; the C library behind
  CPython on Linux does not pad a year below 1000, so such a year has fewer than four
  digits.
\<close>

definition digit_char :: "int \<Rightarrow> char" where
  "digit_char k = char_of (48 + k mod 10)"

definition pad2 :: "int \<Rightarrow> string" where
  "pad2 k = [digit_char (k div 10), digit_char k]"

definition pad4 :: "int \<Rightarrow> string" where
  "pad4 k = [digit_char (k div 1000), digit_char (k div 100), digit_char (k div 10), digit_char k]"

definition year_digits :: "int \<Rightarrow> string" where
  "year_digits y =
     (if y < 10 then [digit_char y]
      else if y < 100 then [digit_char (y div 10), digit_char y]
      else if y < 1000 then [digit_char (y div 100), digit_char (y div 10), digit_char y]
      else pad4 y)"

text \<open>\<^verbatim>\<open>date.strftime("%Y-%m-%d")\<close>\<close>

definition strftime_ymd :: "pydate \<Rightarrow> string" where
  "strftime_ymd dt = year_digits (year dt) @ ''-'' @ pad2 (month dt) @ ''-'' @ pad2 (day dt)"

section \<open>The generators\<close>

text \<open>Lines 44 to 51.\<close>

definition random_date :: "int \<Rightarrow> int \<Rightarrow> rng \<Rightarrow> py_error + (string \<times> rng)" where
  "random_date start_year end_year g =
     py_bind (datetime start_year 1 1) (\<lambda>start.
     py_bind (datetime end_year 12 31) (\<lambda>end_dt.
     let delta = delta_days end_dt start in
     py_bind (randint 0 delta g) (\<lambda>(random_days, g').
     py_bind (timedelta random_days) (\<lambda>td.
     py_bind (date_add start td) (\<lambda>dt.
     Inr (strftime_ymd dt, g'))))))"

text \<open>The f-string \<^verbatim>\<open>f"{random.choice(FIRST_NAMES)} {random.choice(LAST_NAMES)}"\<close>.\<close>

definition random_name :: "rng \<Rightarrow> py_error + (string \<times> rng)" where
  "random_name g =
     py_bind (choice FIRST_NAMES g) (\<lambda>(first, g1).
     py_bind (choice LAST_NAMES g1) (\<lambda>(last, g2).
     Inr (first @ '' '' @ last, g2)))"

definition christina_customer :: dict where
  "christina_customer =
     [(''name'', ''Christina Vargas''), (''date_of_birth'', ''1995-07-23''), (''country'', ''AU'')]"

definition christina_sanction :: dict where
  "christina_sanction =
     [(''name'', ''Christina Vargas''), (''date_of_birth'', ''1995-07-23''), (''country'', ''AU''),
      (''program'', ''OFAC SDN''), (''aliases'', '''')]"

text \<open>
  The body of the loop of lines 66 to 75, run \<open>k\<close> times: \<^verbatim>\<open>range(c)\<close> has
  \<open>nat c\<close> elements, none when \<open>c\<close> is negative.
\<close>

fun customers_loop :: "nat \<Rightarrow> dict list \<Rightarrow> rng \<Rightarrow> py_error + (dict list \<times> rng)" where
  "customers_loop 0 customers g = Inr (customers, g)"
| "customers_loop (Suc k) customers g =
     py_bind (random_name g) (\<lambda>(name, g1).
     py_bind (random_date 1940 2005 g1) (\<lambda>(dob, g2).
     py_bind (choice COUNTRIES g2) (\<lambda>(country, g3).
     customers_loop k
       (customers @ [[(''name'', name), (''date_of_birth'', dob), (''country'', country)]]) g3)))"

definition generate_customers :: "int \<Rightarrow> bool \<Rightarrow> rng \<Rightarrow> py_error + (dict list \<times> rng)" where
  "generate_customers count include_christina g =
     (let customers = [];
          customers = (if include_christina then customers @ [christina_customer] else customers)
      in customers_loop (nat (count - (if include_christina then 1 else 0))) customers g)"

text \<open>The body of the loop of lines 94 to 112.\<close>

fun sanctions_loop :: "nat \<Rightarrow> dict list \<Rightarrow> rng \<Rightarrow> py_error + (dict list \<times> rng)" where
  "sanctions_loop 0 sanctions g = Inr (sanctions, g)"
| "sanctions_loop (Suc k) sanctions g =
     py_bind (random_name g) (\<lambda>(name, g1).
     py_bind (random_date 1940 2005 g1) (\<lambda>(dob, g2).
     py_bind (choice COUNTRIES g2) (\<lambda>(country, g3).
     py_bind (choice PROGRAMS g3) (\<lambda>(program, g4).
     case py_random g4 of (u, g5) \<Rightarrow>
     py_bind (if u < ALIAS_THRESHOLD then random_name g5 else Inr ('''', g5)) (\<lambda>(aliases, g6).
     sanctions_loop k
       (sanctions @ [[(''name'', name), (''date_of_birth'', dob), (''country'', country),
                      (''program'', program), (''aliases'', aliases)]]) g6)))))"

definition generate_sanctions :: "int \<Rightarrow> bool \<Rightarrow> rng \<Rightarrow> py_error + (dict list \<times> rng)" where
  "generate_sanctions count include_christina g =
     (let sanctions = [];
          sanctions = (if include_christina then sanctions @ [christina_sanction] else sanctions)
      in sanctions_loop (nat (count - (if include_christina then 1 else 0))) sanctions g)"

section \<open>Writing the collections: module csv with the excel dialect\<close>












section \<open>Reading a written file back: csv.reader\<close>














section \<open>The script as a whole\<close>




section \<open>Notions used in the statements\<close>

text \<open>The random source after \<open>k\<close> draws have been consumed, and a source of equal draws.\<close>

definition rng_drop :: "nat \<Rightarrow> rng \<Rightarrow> rng" where
  "rng_drop k g = (\<lambda>i. g (i + k))"

definition constant_rng :: "nat \<Rightarrow> rng" where
  "constant_rng r = (\<lambda>i. r)"

text \<open>
  A date string is parseable when \<^verbatim>\<open>date.fromisoformat\<close> accepts it. Only the
  form \<^verbatim>\<open>YYYY-MM-DD\<close> is modelled: ten characters, digits around two hyphens, and
  numbers that the date constructor accepts.
\<close>

definition digit_value :: "char \<Rightarrow> int option" where
  "digit_value c = (let k = of_char c :: int in if 48 \<le> k \<and> k \<le> 57 then Some (k - 48) else None)"

fun int_of_digits :: "int \<Rightarrow> string \<Rightarrow> int option" where
  "int_of_digits acc [] = Some acc"
| "int_of_digits acc (c # cs) =
     (case digit_value c of None \<Rightarrow> None | Some v \<Rightarrow> int_of_digits (10 * acc + v) cs)"

definition fromisoformat :: "string \<Rightarrow> py_error + pydate" where
  "fromisoformat s =
     (if length s = 10 \<and> s ! 4 = CHR ''-'' \<and> s ! 7 = CHR ''-''
      then (case (int_of_digits 0 (take 4 s), int_of_digits 0 (take 2 (drop 5 s)),
                  int_of_digits 0 (drop 8 s)) of
              (Some y, Some m, Some d) \<Rightarrow> datetime y m d
            | _ \<Rightarrow> Inl ValueError)
      else Inl ValueError)"


text \<open>
  What one pass through the body of a filling loop reads off the random source: the
  name from two draws, the date of birth from one, the value of \<^verbatim>\<open>random.random()\<close>
  from one; and the record a pass appends when the source is \<open>g\<close> at its start.
\<close>

definition name_of_draws :: "nat \<Rightarrow> nat \<Rightarrow> string" where
  "name_of_draws a b = FIRST_NAMES ! (a mod 48) @ '' '' @ LAST_NAMES ! (b mod 55)"

definition dob_of_draw :: "nat \<Rightarrow> string" where
  "dob_of_draw r =
     (case ord2ymd (708205 + int (r mod 24107)) of (y, m, d) \<Rightarrow> strftime_ymd (Date y m d))"

definition unit_of_draw :: "nat \<Rightarrow> rat" where
  "unit_of_draw r = of_nat (r mod 2 ^ 53) / 2 ^ 53"

definition customer_of :: "rng \<Rightarrow> dict" where
  "customer_of g =
     [(''name'', name_of_draws (g 0) (g 1)), (''date_of_birth'', dob_of_draw (g 2)),
      (''country'', COUNTRIES ! (g 3 mod 50))]"

definition sanction_of :: "rng \<Rightarrow> dict" where
  "sanction_of g =
     [(''name'', name_of_draws (g 0) (g 1)), (''date_of_birth'', dob_of_draw (g 2)),
      (''country'', COUNTRIES ! (g 3 mod 50)), (''program'', PROGRAMS ! (g 4 mod 8)),
      (''aliases'', if unit_of_draw (g 5) < ALIAS_THRESHOLD then name_of_draws (g 6) (g 7) else '''')]"

definition sanction_draws :: "rng \<Rightarrow> nat" where
  "sanction_draws g = (if unit_of_draw (g 5) < ALIAS_THRESHOLD then 8 else 6)"

fun customers_from :: "nat \<Rightarrow> rng \<Rightarrow> dict list" where
  "customers_from 0 g = []"
| "customers_from (Suc k) g = customer_of g # customers_from k (rng_drop 4 g)"

fun sanctions_from :: "nat \<Rightarrow> rng \<Rightarrow> dict list" where
  "sanctions_from 0 g = []"
| "sanctions_from (Suc k) g = sanction_of g # sanctions_from k (rng_drop (sanction_draws g) g)"

fun sanctions_rng :: "nat \<Rightarrow> rng \<Rightarrow> rng" where
  "sanctions_rng 0 g = g"
| "sanctions_rng (Suc k) g = sanctions_rng k (rng_drop (sanction_draws g) g)"

text \<open>The number of draws consumed before pass \<open>k\<close> of the watchlist loop begins.\<close>

fun sanctions_offset :: "nat \<Rightarrow> rng \<Rightarrow> nat" where
  "sanctions_offset 0 g = 0"
| "sanctions_offset (Suc k) g = sanction_draws g + sanctions_offset k (rng_drop (sanction_draws g) g)"





section \<open>Correctness of the calendar arithmetic\<close>

lemma div4: fixes a b c d :: int assumes "0 \<le> d" "d \<le> 3"
  shows "(400 * a + 100 * b + 4 * c + d) div 4 = 100 * a + 25 * b + c"
  by (rule int_div_pos_eq [where r = d]) (use assms in simp_all)

lemma div100: fixes a b c d :: int assumes "0 \<le> d" "d \<le> 3" "0 \<le> c" "c \<le> 24"
  shows "(400 * a + 100 * b + 4 * c + d) div 100 = 4 * a + b"
  by (rule int_div_pos_eq [where r = "4 * c + d"]) (use assms in simp_all)

lemma div400: fixes a b c d :: int assumes "0 \<le> d" "d \<le> 3" "0 \<le> c" "c \<le> 24" "0 \<le> b" "b \<le> 3"
  shows "(400 * a + 100 * b + 4 * c + d) div 400 = a"
  by (rule int_div_pos_eq [where r = "100 * b + 4 * c + d"]) (use assms in simp_all)

lemma dby_decomp: fixes a b c d :: int
  assumes "0 \<le> d" "d \<le> 3" "0 \<le> c" "c \<le> 24" "0 \<le> b" "b \<le> 3"
  shows "days_before_year (400 * a + 100 * b + 4 * c + d + 1) = 146097 * a + 36524 * b + 1461 * c + 365 * d"
  using assms by (simp add: days_before_year_def Let_def div4 div100 div400)


lemma small_mod: fixes r m :: int assumes "1 \<le> r" "r \<le> m"
  shows "(r mod m = 0) = (r = m)"
proof (cases "r = m")
  case True then show ?thesis by simp
next
  case False
  with assms have "r mod m = r" by simp
  with assms False show ?thesis by simp
qed

lemma mod4: fixes a b c d :: int assumes "0 \<le> d" "d \<le> 3"
  shows "((400 * a + 100 * b + 4 * c + d + 1) mod 4 = 0) = (d = 3)"
proof -
  have "400 * a + 100 * b + 4 * c + d + 1 = 4 * (100 * a + 25 * b + c) + (d + 1)" by simp
  then have "(400 * a + 100 * b + 4 * c + d + 1) mod 4 = (d + 1) mod 4"
    by (simp only: mod_mult_self4)
  moreover have "((d + 1) mod 4 = 0) = (d + 1 = 4)" by (rule small_mod) (use assms in simp_all)
  ultimately show ?thesis by auto
qed

lemma mod100: fixes a b c d :: int assumes "0 \<le> d" "d \<le> 3" "0 \<le> c" "c \<le> 24"
  shows "((400 * a + 100 * b + 4 * c + d + 1) mod 100 = 0) = (d = 3 \<and> c = 24)"
proof -
  have "400 * a + 100 * b + 4 * c + d + 1 = 100 * (4 * a + b) + (4 * c + d + 1)" by simp
  then have "(400 * a + 100 * b + 4 * c + d + 1) mod 100 = (4 * c + d + 1) mod 100"
    by (simp only: mod_mult_self4)
  moreover have "((4 * c + d + 1) mod 100 = 0) = (4 * c + d + 1 = 100)"
    by (rule small_mod) (use assms in simp_all)
  ultimately show ?thesis using assms by auto
qed

lemma mod400: fixes a b c d :: int
  assumes "0 \<le> d" "d \<le> 3" "0 \<le> c" "c \<le> 24" "0 \<le> b" "b \<le> 3"
  shows "((400 * a + 100 * b + 4 * c + d + 1) mod 400 = 0) = (d = 3 \<and> c = 24 \<and> b = 3)"
proof -
  have "400 * a + 100 * b + 4 * c + d + 1 = 400 * a + (100 * b + 4 * c + d + 1)" by simp
  then have "(400 * a + 100 * b + 4 * c + d + 1) mod 400 = (100 * b + 4 * c + d + 1) mod 400"
    by (simp only: mod_mult_self4)
  moreover have "((100 * b + 4 * c + d + 1) mod 400 = 0) = (100 * b + 4 * c + d + 1 = 400)"
    by (rule small_mod) (use assms in simp_all)
  ultimately show ?thesis using assms by auto
qed

lemma leap_decomp: fixes a b c d :: int
  assumes "0 \<le> d" "d \<le> 3" "0 \<le> c" "c \<le> 24" "0 \<le> b" "b \<le> 3"
  shows "is_leap (400 * a + 100 * b + 4 * c + d + 1) = (d = 3 \<and> (c \<noteq> 24 \<or> b = 3))"
  unfolding is_leap_def using assms by (simp add: mod4 mod100 mod400) blast

lemma ord2ymd_decomp:
  fixes n :: int
  assumes "1 \<le> n"
  obtains a b c d e where
    "n - 1 = 146097 * a + 36524 * b + 1461 * c + 365 * d + e"
    "0 \<le> a" "0 \<le> b" "b \<le> 4" "0 \<le> c" "c \<le> 24" "0 \<le> d" "d \<le> 4" "0 \<le> e" "e \<le> 364"
    "b = 4 \<longrightarrow> c = 0 \<and> d = 0 \<and> e = 0" "d = 4 \<longrightarrow> e = 0 \<and> c \<le> 23"
    "a = (n - 1) div DI400Y"
    "b = (n - 1) mod DI400Y div DI100Y"
    "c = (n - 1) mod DI400Y mod DI100Y div DI4Y"
    "d = (n - 1) mod DI400Y mod DI100Y mod DI4Y div 365"
    "e = (n - 1) mod DI400Y mod DI100Y mod DI4Y mod 365"
proof -
  define a where "a = (n - 1) div 146097"
  define r1 where "r1 = (n - 1) mod 146097"
  define b where "b = r1 div 36524"
  define r2 where "r2 = r1 mod 36524"
  define c where "c = r2 div 1461"
  define r3 where "r3 = r2 mod 1461"
  define d where "d = r3 div 365"
  define e where "e = r3 mod 365"
  have n0: "n - 1 = 146097 * a + r1" unfolding a_def r1_def by simp
  have r1: "r1 = 36524 * b + r2" unfolding b_def r2_def by simp
  have r2: "r2 = 1461 * c + r3" unfolding c_def r3_def by simp
  have r3: "r3 = 365 * d + e" unfolding d_def e_def by simp
  have r1b: "0 \<le> r1" "r1 \<le> 146096" unfolding r1_def by simp_all
  have r2b: "0 \<le> r2" "r2 \<le> 36523" unfolding r2_def by simp_all
  have r3b: "0 \<le> r3" "r3 \<le> 1460" unfolding r3_def by simp_all
  have eb: "0 \<le> e" "e \<le> 364" unfolding e_def by simp_all
  have a0: "0 \<le> a" unfolding a_def using assms by simp
  have b0: "0 \<le> b" unfolding b_def using r1b by simp
  have c0: "0 \<le> c" unfolding c_def using r2b by simp
  have d0: "0 \<le> d" unfolding d_def using r3b by simp
  have b4: "b \<le> 4" using r1 r1b r2b by linarith
  have c24: "c \<le> 24" using r2 r2b r3b by linarith
  have d4: "d \<le> 4" using r3 r3b eb by linarith
  have bx: "b = 4 \<Longrightarrow> c = 0 \<and> d = 0 \<and> e = 0"
    using r1 r1b r2 r2b r3 r3b eb c0 d0 by linarith
  have dx: "d = 4 \<Longrightarrow> e = 0 \<and> c \<le> 23"
    using r2 r2b r3 r3b eb c0 d0 by linarith
  have bx': "b = 4 \<longrightarrow> c = 0 \<and> d = 0 \<and> e = 0" by (rule impI) (rule bx)
  have dx': "d = 4 \<longrightarrow> e = 0 \<and> c \<le> 23" by (rule impI) (rule dx)
  have full: "n - 1 = 146097 * a + 36524 * b + 1461 * c + 365 * d + e"
    using n0 r1 r2 r3 by linarith
  have da: "a = (n - 1) div DI400Y" by (simp only: a_def DI400Y_def)
  have db: "b = (n - 1) mod DI400Y div DI100Y" by (simp only: b_def r1_def DI400Y_def DI100Y_def)
  have dc: "c = (n - 1) mod DI400Y mod DI100Y div DI4Y"
    by (simp only: c_def r2_def r1_def DI400Y_def DI100Y_def DI4Y_def)
  have dd: "d = (n - 1) mod DI400Y mod DI100Y mod DI4Y div 365"
    by (simp only: d_def r3_def r2_def r1_def DI400Y_def DI100Y_def DI4Y_def)
  have de: "e = (n - 1) mod DI400Y mod DI100Y mod DI4Y mod 365"
    by (simp only: e_def r3_def r2_def r1_def DI400Y_def DI100Y_def DI4Y_def)
  show thesis
    by (rule that [OF full a0 b0 b4 c0 c24 d0 d4 eb bx' dx' da db dc dd de])
qed

lemma month_day_valid:
  fixes e :: int and lp :: bool
  assumes "0 \<le> e" "e \<le> 364"
  defines "m0 \<equiv> (e + 50) div 32"
  defines "p0 \<equiv> DAYS_BEFORE_MONTH ! nat m0 + (if m0 > 2 \<and> lp then 1 else 0)"
  defines "m \<equiv> if p0 > e then m0 - 1 else m0"
  defines "p \<equiv> if p0 > e then p0 - (DAYS_IN_MONTH ! nat m + (if m = 2 \<and> lp then 1 else 0)) else p0"
  shows "1 \<le> m \<and> m \<le> 12 \<and> 1 \<le> e - p + 1
    \<and> e - p + 1 \<le> (if m = 2 \<and> lp then 29 else DAYS_IN_MONTH ! nat m)
    \<and> p = DAYS_BEFORE_MONTH ! nat m + (if m > 2 \<and> lp then 1 else 0)"
proof -
  have "1 \<le> m0" "m0 \<le> 12" using assms(1,2) unfolding m0_def by presburger+
  then have "m0 = 1 \<or> m0 = 2 \<or> m0 = 3 \<or> m0 = 4 \<or> m0 = 5 \<or> m0 = 6
    \<or> m0 = 7 \<or> m0 = 8 \<or> m0 = 9 \<or> m0 = 10 \<or> m0 = 11 \<or> m0 = 12" by arith
  then consider "m0 = 1" | "m0 = 2" | "m0 = 3" | "m0 = 4" | "m0 = 5" | "m0 = 6"
    | "m0 = 7" | "m0 = 8" | "m0 = 9" | "m0 = 10" | "m0 = 11" | "m0 = 12" by blast
  then show ?thesis
  proof cases
    case 1
    then have "e \<le> 13" unfolding m0_def by presburger
    with 1 assms(1) show ?thesis
      unfolding m_def p_def p0_def by (simp add: DAYS_BEFORE_MONTH_def DAYS_IN_MONTH_def)
  next
    case 2
    then have "14 \<le> e" "e \<le> 45" unfolding m0_def by presburger+
    with 2 show ?thesis
      unfolding m_def p_def p0_def by (auto simp add: DAYS_BEFORE_MONTH_def DAYS_IN_MONTH_def)
  next
    case 3
    then have "46 \<le> e" "e \<le> 77" unfolding m0_def by presburger+
    with 3 show ?thesis
      unfolding m_def p_def p0_def by (auto simp add: DAYS_BEFORE_MONTH_def DAYS_IN_MONTH_def)
  next
    case 4
    then have "78 \<le> e" "e \<le> 109" unfolding m0_def by presburger+
    with 4 show ?thesis
      unfolding m_def p_def p0_def by (auto simp add: DAYS_BEFORE_MONTH_def DAYS_IN_MONTH_def)
  next
    case 5
    then have "110 \<le> e" "e \<le> 141" unfolding m0_def by presburger+
    with 5 show ?thesis
      unfolding m_def p_def p0_def by (auto simp add: DAYS_BEFORE_MONTH_def DAYS_IN_MONTH_def)
  next
    case 6
    then have "142 \<le> e" "e \<le> 173" unfolding m0_def by presburger+
    with 6 show ?thesis
      unfolding m_def p_def p0_def by (auto simp add: DAYS_BEFORE_MONTH_def DAYS_IN_MONTH_def)
  next
    case 7
    then have "174 \<le> e" "e \<le> 205" unfolding m0_def by presburger+
    with 7 show ?thesis
      unfolding m_def p_def p0_def by (auto simp add: DAYS_BEFORE_MONTH_def DAYS_IN_MONTH_def)
  next
    case 8
    then have "206 \<le> e" "e \<le> 237" unfolding m0_def by presburger+
    with 8 show ?thesis
      unfolding m_def p_def p0_def by (auto simp add: DAYS_BEFORE_MONTH_def DAYS_IN_MONTH_def)
  next
    case 9
    then have "238 \<le> e" "e \<le> 269" unfolding m0_def by presburger+
    with 9 show ?thesis
      unfolding m_def p_def p0_def by (auto simp add: DAYS_BEFORE_MONTH_def DAYS_IN_MONTH_def)
  next
    case 10
    then have "270 \<le> e" "e \<le> 301" unfolding m0_def by presburger+
    with 10 show ?thesis
      unfolding m_def p_def p0_def by (auto simp add: DAYS_BEFORE_MONTH_def DAYS_IN_MONTH_def)
  next
    case 11
    then have "302 \<le> e" "e \<le> 333" unfolding m0_def by presburger+
    with 11 show ?thesis
      unfolding m_def p_def p0_def by (auto simp add: DAYS_BEFORE_MONTH_def DAYS_IN_MONTH_def)
  next
    case 12
    then have "334 \<le> e" unfolding m0_def by presburger
    with 12 assms(2) show ?thesis
      unfolding m_def p_def p0_def by (auto simp add: DAYS_BEFORE_MONTH_def DAYS_IN_MONTH_def)
  qed
qed

lemma div_step:
  fixes y k :: int
  assumes "0 < k"
  shows "y div k = (y - 1) div k + (if y mod k = 0 then 1 else 0)"
proof -
  define q where "q = (y - 1) div k"
  define r where "r = (y - 1) mod k"
  have y: "y = k * q + (r + 1)" unfolding q_def r_def by simp
  have rb: "0 \<le> r" "r < k" unfolding r_def using assms by simp_all
  show ?thesis
  proof (cases "r + 1 = k")
    case True
    then have "y = k * (q + 1) + 0" using y by (simp add: algebra_simps)
    then have "y div k = q + 1" "y mod k = 0" using assms by simp_all
    then show ?thesis unfolding q_def by simp
  next
    case False
    with rb have lt: "r + 1 < k" by simp
    have "y div k = q" by (rule int_div_pos_eq [OF y]) (use rb lt in simp_all)
    moreover have "y mod k = r + 1" by (rule int_mod_pos_eq [OF y]) (use rb lt in simp_all)
    ultimately show ?thesis unfolding q_def using rb by simp
  qed
qed

lemma dby_step_arith:
  fixes y a4 a100 a400 b4 b100 b400 u v w :: int
  assumes "a4 = b4 + u" "a100 = b100 + v" "a400 = b400 + w"
  shows "y * 365 + a4 - a100 + a400 = (y - 1) * 365 + b4 - b100 + b400 + (365 + u - v + w)"
  using assms by (simp add: algebra_simps)

lemma leap_count:
  "(P400 \<longrightarrow> P100) \<Longrightarrow> (P100 \<longrightarrow> P4) \<Longrightarrow>
     (365::int) + (if P4 then 1 else 0) - (if P100 then 1 else 0) + (if P400 then 1 else 0)
         = (if P4 \<and> (\<not> P100 \<or> P400) then 366 else 365)"
  by (cases P4; cases P100; cases P400; simp)

lemma mod_coarser:
  fixes y j k :: int
  assumes "j dvd k" "y mod k = 0"
  shows "y mod j = 0"
proof -
  from assms(2) have "k dvd y" by (simp only: mod_eq_0_iff_dvd)
  with assms(1) have "j dvd y" by (rule dvd_trans)
  then show ?thesis by (simp only: mod_eq_0_iff_dvd)
qed

lemma dby_Suc: "days_before_year (y + 1) = days_before_year y + (if is_leap y then 366 else 365)"
proof -
  have d4: "y div 4 = (y - 1) div 4 + (if y mod 4 = 0 then 1 else 0)" by (rule div_step) simp
  have d100: "y div 100 = (y - 1) div 100 + (if y mod 100 = 0 then 1 else 0)" by (rule div_step) simp
  have d400: "y div 400 = (y - 1) div 400 + (if y mod 400 = 0 then 1 else 0)" by (rule div_step) simp
  have m1: "y mod 400 = 0 \<longrightarrow> y mod 100 = 0"
    by (rule impI, rule mod_coarser [where k = 400]) simp_all
  have m2: "y mod 100 = 0 \<longrightarrow> y mod 4 = 0"
    by (rule impI, rule mod_coarser [where k = 100]) simp_all
  have s: "y + 1 - 1 = y" by simp
  have L: "days_before_year (y + 1) = y * 365 + y div 4 - y div 100 + y div 400"
    unfolding days_before_year_def Let_def s by (rule refl)
  have R: "days_before_year y = (y - 1) * 365 + (y - 1) div 4 - (y - 1) div 100 + (y - 1) div 400"
    unfolding days_before_year_def Let_def by (rule refl)
  have A: "y * 365 + y div 4 - y div 100 + y div 400
      = (y - 1) * 365 + (y - 1) div 4 - (y - 1) div 100 + (y - 1) div 400
      + (365 + (if y mod 4 = 0 then 1 else 0) - (if y mod 100 = 0 then 1 else 0)
             + (if y mod 400 = 0 then 1 else 0))"
    by (rule dby_step_arith [OF d4 d100 d400])
  have C: "365 + (if y mod 4 = 0 then 1 else 0) - (if y mod 100 = 0 then 1 else 0)
             + (if y mod 400 = 0 then 1 else 0) = (if is_leap y then 366 else (365::int))"
    unfolding is_leap_def by (rule leap_count [OF m1 m2])
  show ?thesis by (simp only: L R A C)
qed

lemma dby_mono_step: "days_before_year y < days_before_year (y + 1)"
  unfolding dby_Suc by simp


lemma dby_mono: "y1 \<le> y2 \<Longrightarrow> days_before_year y1 \<le> days_before_year y2"
proof (induction y2 rule: int_ge_induct)
  case base
  show ?case by simp
next
  case (step i)
  from step.IH dby_mono_step [of i] show ?case by linarith
qed

lemma dby_less_imp: "days_before_year y1 < days_before_year y2 \<Longrightarrow> y1 < y2"
  using dby_mono [of y2 y1] by linarith

text \<open>
  \<open>ord2ymd\<close> inverts \<open>ymd2ord\<close>: its result is a calendar date, the date has the given
  ordinal, and the ordinal lies in the year returned.
\<close>

lemma ord2ymd_correct:
  fixes n :: int
  assumes "1 \<le> n"
  shows "\<exists>y m d. ord2ymd n = (y, m, d) \<and> 1 \<le> m \<and> m \<le> 12 \<and> 1 \<le> d \<and> d \<le> days_in_month y m
          \<and> ymd2ord y m d = n \<and> days_before_year y < n \<and> n \<le> days_before_year (y + 1)"
proof -
  obtain a b c d e where
    full: "n - 1 = 146097 * a + 36524 * b + 1461 * c + 365 * d + e"
    and a0: "0 \<le> a" and b0: "0 \<le> b" and b4: "b \<le> 4" and c0: "0 \<le> c" and c24: "c \<le> 24"
    and d0: "0 \<le> d" and d4: "d \<le> 4" and e0: "0 \<le> e" and e364: "e \<le> 364"
    and bx: "b = 4 \<longrightarrow> c = 0 \<and> d = 0 \<and> e = 0" and dx: "d = 4 \<longrightarrow> e = 0 \<and> c \<le> 23"
    and da: "a = (n - 1) div DI400Y"
    and db: "b = (n - 1) mod DI400Y div DI100Y"
    and dc: "c = (n - 1) mod DI400Y mod DI100Y div DI4Y"
    and dd: "d = (n - 1) mod DI400Y mod DI100Y mod DI4Y div 365"
    and de: "e = (n - 1) mod DI400Y mod DI100Y mod DI4Y mod 365"
    by (rule ord2ymd_decomp [OF assms]) (rule that; assumption)
  define yr where "yr = a * 400 + 1 + (b * 100 + c * 4 + d)"
  define lp where "lp = (d = 3 \<and> (c \<noteq> 24 \<or> b = 3))"
  define m0 where "m0 = (e + 50) div 32"
  define p0 where "p0 = DAYS_BEFORE_MONTH ! nat m0 + (if m0 > 2 \<and> lp then 1 else 0)"
  define M where "M = (if p0 > e then m0 - 1 else m0)"
  define P where "P = (if p0 > e then p0 - (DAYS_IN_MONTH ! nat M + (if M = 2 \<and> lp then 1 else 0)) else p0)"
  have unfolded: "ord2ymd n = (if d = 4 \<or> b = 4 then (yr - 1, 12, 31) else (yr, M, e - P + 1))"
    unfolding ord2ymd_def Let_def de [symmetric] dd [symmetric] dc [symmetric] db [symmetric]
      da [symmetric] P_def M_def p0_def m0_def lp_def yr_def by (rule refl)
  show ?thesis
  proof (cases "d = 4 \<or> b = 4")
    case True
    have o: "ord2ymd n = (yr - 1, 12, 31)" unfolding unfolded using True by simp
    have facts: "days_before_year (yr - 1) = n - 366 \<and> is_leap (yr - 1)
        \<and> days_before_year (yr - 1 + 1) = n"
    proof (cases "b = 4")
      case b: True
      with bx have z: "c = 0" "d = 0" "e = 0" by simp_all
      have y1: "yr - 1 = 400 * a + 100 * 3 + 4 * 24 + 3 + 1" unfolding yr_def using b z by simp
      have y2: "yr - 1 + 1 = 400 * (a + 1) + 100 * 0 + 4 * 0 + 0 + 1" unfolding yr_def using b z by simp
      have n: "n = 146097 * a + 146097" using full b z by simp
      have "days_before_year (yr - 1) = 146097 * a + 36524 * 3 + 1461 * 24 + 365 * 3"
        unfolding y1 by (rule dby_decomp) simp_all
      moreover have "is_leap (yr - 1) = (3 = (3::int) \<and> (24 \<noteq> (24::int) \<or> 3 = (3::int)))"
        unfolding y1 by (rule leap_decomp) simp_all
      moreover have "days_before_year (yr - 1 + 1) = 146097 * (a + 1) + 36524 * 0 + 1461 * 0 + 365 * 0"
        unfolding y2 by (rule dby_decomp) simp_all
      ultimately show ?thesis using n by simp
    next
      case nb: False
      with True have d: "d = 4" by simp
      with dx have z: "e = 0" "c \<le> 23" by simp_all
      from nb b4 have b3: "b \<le> 3" by simp
      have y1: "yr - 1 = 400 * a + 100 * b + 4 * c + 3 + 1" unfolding yr_def using d by simp
      have y2: "yr - 1 + 1 = 400 * a + 100 * b + 4 * (c + 1) + 0 + 1" unfolding yr_def using d by simp
      have n: "n = 146097 * a + 36524 * b + 1461 * c + 1461" using full d z by simp
      have "days_before_year (yr - 1) = 146097 * a + 36524 * b + 1461 * c + 365 * 3"
        unfolding y1 by (rule dby_decomp) (use b0 b3 c0 z in simp_all)
      moreover have "is_leap (yr - 1) = (3 = (3::int) \<and> (c \<noteq> 24 \<or> b = 3))"
        unfolding y1 by (rule leap_decomp) (use b0 b3 c0 z in simp_all)
      moreover have "days_before_year (yr - 1 + 1) = 146097 * a + 36524 * b + 1461 * (c + 1) + 365 * 0"
        unfolding y2 by (rule dby_decomp) (use b0 b3 c0 z in simp_all)
      ultimately show ?thesis using n z by simp
    qed
    then have dby: "days_before_year (yr - 1) = n - 366" and leap: "is_leap (yr - 1)"
      and dby': "days_before_year (yr - 1 + 1) = n" by simp_all
    have dim: "days_in_month (yr - 1) 12 = 31" by (simp add: days_in_month_def DAYS_IN_MONTH_def)
    have ord: "ymd2ord (yr - 1) 12 31 = n"
      using dby leap by (simp add: ymd2ord_def days_before_month_def DAYS_BEFORE_MONTH_def)
    show ?thesis
    proof (intro exI conjI)
      show "ord2ymd n = (yr - 1, 12, 31)" by (rule o)
      show "(1::int) \<le> 12" "(12::int) \<le> 12" "(1::int) \<le> 31" by simp_all
      show "31 \<le> days_in_month (yr - 1) 12" using dim by simp
      show "ymd2ord (yr - 1) 12 31 = n" by (rule ord)
      show "days_before_year (yr - 1) < n" using dby by simp
      show "n \<le> days_before_year (yr - 1 + 1)" using dby' by simp
    qed
  next
    case False
    then have d3: "d \<le> 3" and b3: "b \<le> 3" using d4 b4 by simp_all
    have o: "ord2ymd n = (yr, M, e - P + 1)" unfolding unfolded using False by simp
    have y1: "yr = 400 * a + 100 * b + 4 * c + d + 1" unfolding yr_def by simp
    have dby: "days_before_year yr = 146097 * a + 36524 * b + 1461 * c + 365 * d"
      unfolding y1 by (rule dby_decomp) (use b0 b3 c0 c24 d0 d3 in simp_all)
    have leap: "is_leap yr = lp"
      unfolding y1 lp_def by (rule leap_decomp) (use b0 b3 c0 c24 d0 d3 in simp_all)
    have md: "1 \<le> M \<and> M \<le> 12 \<and> 1 \<le> e - P + 1
      \<and> e - P + 1 \<le> (if M = 2 \<and> lp then 29 else DAYS_IN_MONTH ! nat M)
      \<and> P = DAYS_BEFORE_MONTH ! nat M + (if M > 2 \<and> lp then 1 else 0)"
      unfolding P_def M_def p0_def m0_def by (rule month_day_valid [OF e0 e364])
    have dim: "days_in_month yr M = (if M = 2 \<and> lp then 29 else DAYS_IN_MONTH ! nat M)"
      unfolding days_in_month_def leap by (rule refl)
    have dbm: "days_before_month yr M = P"
      unfolding days_before_month_def leap using md by simp
    have ord: "ymd2ord yr M (e - P + 1) = n"
      unfolding ymd2ord_def dbm dby using full by simp
    have nxt: "days_before_year (yr + 1) = days_before_year yr + (if is_leap yr then 366 else 365)"
      by (rule dby_Suc)
    show ?thesis
    proof (intro exI conjI)
      show "ord2ymd n = (yr, M, e - P + 1)" by (rule o)
      show "1 \<le> M" "M \<le> 12" "1 \<le> e - P + 1" using md by simp_all
      show "e - P + 1 \<le> days_in_month yr M" unfolding dim using md by simp
      show "ymd2ord yr M (e - P + 1) = n" by (rule ord)
      show "days_before_year yr < n" unfolding dby using full e0 by simp
      show "n \<le> days_before_year (yr + 1)" unfolding nxt dby using full e364 by simp
    qed
  qed
qed

section \<open>Dates between two years\<close>

lemma ymd2ord_first: "ymd2ord y 1 1 = days_before_year y + 1"
  by (simp add: ymd2ord_def days_before_month_def DAYS_BEFORE_MONTH_def)

lemma ymd2ord_last: "ymd2ord y 12 31 = days_before_year (y + 1)"
  unfolding dby_Suc by (simp add: ymd2ord_def days_before_month_def DAYS_BEFORE_MONTH_def)

lemma dby_1: "days_before_year 1 = 0"
  by (simp add: days_before_year_def)

lemma dby_10000: "days_before_year 10000 = 3652059"
  by (simp add: days_before_year_def)

lemma dby_nonneg: "1 \<le> y \<Longrightarrow> 0 \<le> days_before_year y"
  using dby_mono [of 1 y] by (simp add: dby_1)

lemma dby_max: "y \<le> 9999 \<Longrightarrow> days_before_year (y + 1) \<le> 3652059"
  using dby_mono [of "y + 1" 10000] by (simp add: dby_10000)

lemma datetime_first: "MINYEAR \<le> y \<Longrightarrow> y \<le> MAXYEAR \<Longrightarrow> datetime y 1 1 = Inr (Date y 1 1)"
  by (simp add: datetime_def days_in_month_def DAYS_IN_MONTH_def)

lemma datetime_last: "MINYEAR \<le> y \<Longrightarrow> y \<le> MAXYEAR \<Longrightarrow> datetime y 12 31 = Inr (Date y 12 31)"
  by (simp add: datetime_def days_in_month_def DAYS_IN_MONTH_def)

text \<open>An ordinal between the first day of one year and the last day of another is a date
  of a year in between.\<close>

lemma fromordinal_between:
  assumes ys: "MINYEAR \<le> ys" and ye: "ye \<le> MAXYEAR"
    and lo: "ymd2ord ys 1 1 \<le> n" and hi: "n \<le> ymd2ord ye 12 31"
  shows "\<exists>y m d. fromordinal n = Inr (Date y m d) \<and> ord2ymd n = (y, m, d) \<and> ys \<le> y \<and> y \<le> ye
           \<and> 1 \<le> m \<and> m \<le> 12 \<and> 1 \<le> d \<and> d \<le> days_in_month y m \<and> ymd2ord y m d = n"
proof -
  from ys have ys1: "1 \<le> ys" by (simp add: MINYEAR_def)
  from ye have ye9: "ye \<le> 9999" by (simp add: MAXYEAR_def)
  from lo have lo': "days_before_year ys + 1 \<le> n" by (simp add: ymd2ord_first)
  from hi have hi': "n \<le> days_before_year (ye + 1)" by (simp add: ymd2ord_last)
  from lo' dby_nonneg [OF ys1] have n1: "1 \<le> n" by linarith
  from ord2ymd_correct [OF n1] obtain y m d where
    o: "ord2ymd n = (y, m, d)" and m: "1 \<le> m" "m \<le> 12" and d: "1 \<le> d" "d \<le> days_in_month y m"
    and r: "ymd2ord y m d = n" and b1: "days_before_year y < n" and b2: "n \<le> days_before_year (y + 1)"
    by blast
  from lo' b2 have "days_before_year ys < days_before_year (y + 1)" by linarith
  then have "ys < y + 1" by (rule dby_less_imp)
  then have y1: "ys \<le> y" by simp
  from b1 hi' have "days_before_year y < days_before_year (ye + 1)" by linarith
  then have "y < ye + 1" by (rule dby_less_imp)
  then have y2: "y \<le> ye" by simp
  from y1 y2 ys ye have yr: "MINYEAR \<le> y" "y \<le> MAXYEAR" by simp_all
  have dt: "datetime y m d = Inr (Date y m d)"
    using yr m d by (simp add: datetime_def)
  have "fromordinal n = Inr (Date y m d)"
    by (simp add: fromordinal_def o dt)
  with o y1 y2 m d r show ?thesis by blast
qed

text \<open>
  \<open>random_date\<close> between two years of the supported range: it raises nothing, consumes
  one draw, and the date it prints lies \<open>randint(0, span)\<close> days after the first of
  January of the first year, in a year between the two.
\<close>

lemma random_date_between:
  assumes ys: "MINYEAR \<le> ys" and le: "ys \<le> ye" and ye: "ye \<le> MAXYEAR"
  shows "\<exists>y m d. random_date ys ye g = Inr (strftime_ymd (Date y m d), rng_drop 1 g)
           \<and> 0 \<le> delta_days (Date ye 12 31) (Date ys 1 1)
           \<and> ord2ymd (ymd2ord ys 1 1 + int (g 0 mod nat (delta_days (Date ye 12 31) (Date ys 1 1) + 1)))
               = (y, m, d)
           \<and> ymd2ord y m d = ymd2ord ys 1 1 + int (g 0 mod nat (delta_days (Date ye 12 31) (Date ys 1 1) + 1))
           \<and> ys \<le> y \<and> y \<le> ye \<and> 1 \<le> m \<and> m \<le> 12 \<and> 1 \<le> d \<and> d \<le> days_in_month y m"
proof -
  define span where "span = delta_days (Date ye 12 31) (Date ys 1 1)"
  define off where "off = int (g 0 mod nat (span + 1))"
  from ys le have ye1: "MINYEAR \<le> ye" by simp
  from le ye have ys9: "ys \<le> MAXYEAR" by simp
  have s: "datetime ys 1 1 = Inr (Date ys 1 1)" by (rule datetime_first [OF ys ys9])
  have e: "datetime ye 12 31 = Inr (Date ye 12 31)" by (rule datetime_last [OF ye1 ye])
  have span_eq: "span = days_before_year (ye + 1) - days_before_year ys - 1"
    by (simp add: span_def delta_days_def toordinal_def ymd2ord_first ymd2ord_last)
  have "days_before_year (ys + 1) \<le> days_before_year (ye + 1)"
    by (rule dby_mono) (use le in simp)
  with dby_mono_step [of ys] have span0: "0 \<le> span" unfolding span_eq by linarith
  from ye have ye9: "ye \<le> 9999" by (simp add: MAXYEAR_def)
  from ys have ys1: "1 \<le> ys" by (simp add: MINYEAR_def)
  have top: "days_before_year (ye + 1) \<le> 3652059" by (rule dby_max [OF ye9])
  have off0: "0 \<le> off" by (simp add: off_def)
  have "g 0 mod nat (span + 1) < nat (span + 1)" using span0 by simp
  then have offs: "off \<le> span" unfolding off_def using span0 by linarith
  have ri: "randint 0 span g = Inr (off, rng_drop 1 g)"
    using span0 by (simp add: randint_def Let_def randbelow_def next_draw_def off_def rng_drop_def)
  have "off \<le> 3652059" using offs top dby_nonneg [OF ys1] unfolding span_eq by linarith
  then have td: "timedelta off = Inr off" using off0 by (simp add: timedelta_def)
  have lo: "ymd2ord ys 1 1 \<le> ymd2ord ys 1 1 + off" using off0 by simp
  have hi: "ymd2ord ys 1 1 + off \<le> ymd2ord ye 12 31"
    using offs unfolding span_eq by (simp add: ymd2ord_first ymd2ord_last)
  from fromordinal_between [OF ys ye lo hi] obtain y m d where
    f: "fromordinal (ymd2ord ys 1 1 + off) = Inr (Date y m d)"
    and o: "ord2ymd (ymd2ord ys 1 1 + off) = (y, m, d)"
    and rest: "ys \<le> y" "y \<le> ye" "1 \<le> m" "m \<le> 12" "1 \<le> d" "d \<le> days_in_month y m"
      "ymd2ord y m d = ymd2ord ys 1 1 + off"
    by blast
  have pos: "0 < ymd2ord ys 1 1 + off"
    using off0 dby_nonneg [OF ys1] by (simp add: ymd2ord_first)
  have mx: "ymd2ord ys 1 1 + off \<le> MAXORDINAL"
    using hi top by (simp add: ymd2ord_last MAXORDINAL_def)
  have da: "date_add (Date ys 1 1) off = Inr (Date y m d)"
    using pos mx f by (simp add: date_add_def Let_def toordinal_def)
  have "random_date ys ye g = Inr (strftime_ymd (Date y m d), rng_drop 1 g)"
    unfolding random_date_def s e py_bind_def Let_def
    by (simp add: span_def [symmetric] ri td da)
  with span0 o rest show ?thesis unfolding off_def span_def by blast
qed

text \<open>The call of the generators: \<open>random_date()\<close> with the default years.\<close>

lemma ord_1940: "ymd2ord 1940 1 1 = 708205"
  by (simp add: ymd2ord_first days_before_year_def)

lemma span_default: "delta_days (Date 2005 12 31) (Date 1940 1 1) = 24106"
  by (simp add: delta_days_def toordinal_def ymd2ord_first ymd2ord_last days_before_year_def)

lemma random_date_default:
  "\<exists>y m d. random_date 1940 2005 g = Inr (strftime_ymd (Date y m d), rng_drop 1 g)
     \<and> ord2ymd (708205 + int (g 0 mod 24107)) = (y, m, d)
     \<and> ymd2ord y m d = 708205 + int (g 0 mod 24107)
     \<and> 1940 \<le> y \<and> y \<le> 2005 \<and> 1 \<le> m \<and> m \<le> 12 \<and> 1 \<le> d \<and> d \<le> days_in_month y m"
proof -
  have "MINYEAR \<le> 1940" "(1940::int) \<le> 2005" "2005 \<le> MAXYEAR"
    by (simp_all add: MINYEAR_def MAXYEAR_def)
  from random_date_between [OF this, of g] show ?thesis
    by (simp add: ord_1940 span_default)
qed

section \<open>The filling loops in closed form\<close>

lemma rng_drop_apply: "rng_drop k g i = g (i + k)"
  by (simp add: rng_drop_def)

lemma rng_drop_first: "rng_drop k g 0 = g k"
  by (simp add: rng_drop_def)

lemma rng_drop_drop [simp]: "rng_drop a (rng_drop b g) = rng_drop (a + b) g"
  by (rule ext) (simp add: rng_drop_def ac_simps)

lemma rng_drop_0 [simp]: "rng_drop 0 g = g"
  by (rule ext) (simp add: rng_drop_def)

lemma length_FIRST_NAMES: "length FIRST_NAMES = 48"
  by (simp add: FIRST_NAMES_def)

lemma length_LAST_NAMES: "length LAST_NAMES = 55"
  by (simp add: LAST_NAMES_def)

lemma length_COUNTRIES: "length COUNTRIES = 50"
  by (simp add: COUNTRIES_def)

lemma length_PROGRAMS: "length PROGRAMS = 8"
  by (simp add: PROGRAMS_def)

lemma choice_pool:
  "0 < length xs \<Longrightarrow> choice xs g = Inr (xs ! (g 0 mod length xs), rng_drop 1 g)"
  by (simp add: choice_def randbelow_def next_draw_def rng_drop_def)

lemma random_name_eq: "random_name g = Inr (name_of_draws (g 0) (g 1), rng_drop 2 g)"
  by (simp del: One_nat_def add_2_eq_Suc add_2_eq_Suc' add: random_name_def py_bind_def choice_pool length_FIRST_NAMES
      length_LAST_NAMES name_of_draws_def rng_drop_apply)

lemma random_date_eq: "random_date 1940 2005 g = Inr (dob_of_draw (g 0), rng_drop 1 g)"
proof -
  from random_date_default [of g] obtain y m d where
    "random_date 1940 2005 g = Inr (strftime_ymd (Date y m d), rng_drop 1 g)"
    "ord2ymd (708205 + int (g 0 mod 24107)) = (y, m, d)" by blast
  then show ?thesis by (simp add: dob_of_draw_def)
qed

lemma py_random_eq: "py_random g = (unit_of_draw (g 0), rng_drop 1 g)"
  by (simp add: py_random_def next_draw_def unit_of_draw_def rng_drop_def)

lemma customers_loop_step:
  "customers_loop (Suc k) acc g = customers_loop k (acc @ [customer_of g]) (rng_drop 4 g)"
  by (simp del: One_nat_def add_2_eq_Suc add_2_eq_Suc' add: py_bind_def random_name_eq random_date_eq choice_pool
      length_COUNTRIES customer_of_def rng_drop_apply)

lemma sanctions_loop_step:
  "sanctions_loop (Suc k) acc g
     = sanctions_loop k (acc @ [sanction_of g]) (rng_drop (sanction_draws g) g)"
  by (simp del: One_nat_def add_2_eq_Suc add_2_eq_Suc' add: py_bind_def random_name_eq random_date_eq choice_pool
      length_COUNTRIES length_PROGRAMS py_random_eq sanction_of_def sanction_draws_def
      rng_drop_apply)

lemma customers_loop_closed:
  "customers_loop k acc g = Inr (acc @ customers_from k g, rng_drop (4 * k) g)"
proof (induction k arbitrary: acc g)
  case 0
  show ?case by simp
next
  case (Suc k)
  show ?case unfolding customers_loop_step Suc.IH by (simp add: add.commute)
qed

lemma sanctions_loop_closed:
  "sanctions_loop k acc g = Inr (acc @ sanctions_from k g, sanctions_rng k g)"
proof (induction k arbitrary: acc g)
  case 0
  show ?case by simp
next
  case (Suc k)
  show ?case unfolding sanctions_loop_step Suc.IH by simp
qed

lemma length_customers_from [simp]: "length (customers_from k g) = k"
  by (induction k arbitrary: g) simp_all

lemma length_sanctions_from [simp]: "length (sanctions_from k g) = k"
  by (induction k arbitrary: g) simp_all

lemma customers_from_set: "r \<in> set (customers_from k g) \<Longrightarrow> \<exists>h. r = customer_of h"
  by (induction k arbitrary: g) auto

lemma sanctions_from_set: "r \<in> set (sanctions_from k g) \<Longrightarrow> \<exists>h. r = sanction_of h"
  by (induction k arbitrary: g) auto

lemma generate_customers_closed:
  "generate_customers count include_christina g =
     Inr ((if include_christina then [christina_customer] else [])
            @ customers_from (nat (count - (if include_christina then 1 else 0))) g,
          rng_drop (4 * nat (count - (if include_christina then 1 else 0))) g)"
  by (simp add: generate_customers_def customers_loop_closed)

lemma generate_sanctions_closed:
  "generate_sanctions count include_christina g =
     Inr ((if include_christina then [christina_sanction] else [])
            @ sanctions_from (nat (count - (if include_christina then 1 else 0))) g,
          sanctions_rng (nat (count - (if include_christina then 1 else 0))) g)"
  by (simp add: generate_sanctions_def sanctions_loop_closed)

section \<open>Facts about the pools and the records\<close>

lemma country_in_pool: "COUNTRIES ! (r mod 50) \<in> set COUNTRIES"
  by (rule nth_mem) (simp add: length_COUNTRIES)

lemma program_in_pool: "PROGRAMS ! (r mod 8) \<in> set PROGRAMS"
  by (rule nth_mem) (simp add: length_PROGRAMS)

lemma first_in_pool: "FIRST_NAMES ! (r mod 48) \<in> set FIRST_NAMES"
  by (rule nth_mem) (simp add: length_FIRST_NAMES)

lemma last_in_pool: "LAST_NAMES ! (r mod 55) \<in> set LAST_NAMES"
  by (rule nth_mem) (simp add: length_LAST_NAMES)

lemma anchor_country: "''AU'' \<in> set COUNTRIES"
  by (simp add: COUNTRIES_def)

lemma anchor_program: "''OFAC SDN'' \<in> set PROGRAMS"
  by (simp add: PROGRAMS_def)

lemma customer_of_country: "\<exists>c\<in>set COUNTRIES. map_of (customer_of h) ''country'' = Some c"
  using country_in_pool by (simp add: customer_of_def)

lemma sanction_of_country: "\<exists>c\<in>set COUNTRIES. map_of (sanction_of h) ''country'' = Some c"
  using country_in_pool by (simp add: sanction_of_def)

lemma sanction_of_program: "\<exists>p\<in>set PROGRAMS. map_of (sanction_of h) ''program'' = Some p"
  using program_in_pool by (simp add: sanction_of_def)

lemma customer_of_cong:
  assumes "\<forall>i<4. g1 i = g2 i"
  shows "customer_of g1 = customer_of g2"
proof -
  from assms have "g1 0 = g2 0" "g1 1 = g2 1" "g1 2 = g2 2" "g1 3 = g2 3" by simp_all
  then show ?thesis by (simp add: customer_of_def)
qed

lemma sanction_of_cong:
  assumes "\<forall>i<8. g1 i = g2 i"
  shows "sanction_of g1 = sanction_of g2 \<and> sanction_draws g1 = sanction_draws g2"
proof -
  from assms have "g1 0 = g2 0" "g1 1 = g2 1" "g1 2 = g2 2" "g1 3 = g2 3"
    "g1 4 = g2 4" "g1 5 = g2 5" "g1 6 = g2 6" "g1 7 = g2 7" by simp_all
  then show ?thesis by (simp add: sanction_of_def sanction_draws_def)
qed

lemma sanction_draws_le: "sanction_draws g \<le> 8"
  by (simp add: sanction_draws_def)

lemma customers_from_cong:
  "\<forall>i < 4 * k. g1 i = g2 i \<Longrightarrow> customers_from k g1 = customers_from k g2"
proof (induction k arbitrary: g1 g2)
  case 0
  show ?case by simp
next
  case (Suc k)
  from Suc.prems have "\<forall>i<4. g1 i = g2 i" by simp
  then have h: "customer_of g1 = customer_of g2" by (rule customer_of_cong)
  have "\<forall>i < 4 * k. rng_drop 4 g1 i = rng_drop 4 g2 i"
    using Suc.prems by (simp add: rng_drop_apply)
  then have "customers_from k (rng_drop 4 g1) = customers_from k (rng_drop 4 g2)"
    by (rule Suc.IH)
  with h show ?case by simp
qed

lemma sanctions_from_cong:
  "\<forall>i < 8 * k. g1 i = g2 i \<Longrightarrow> sanctions_from k g1 = sanctions_from k g2"
proof (induction k arbitrary: g1 g2)
  case 0
  show ?case by simp
next
  case (Suc k)
  from Suc.prems have "\<forall>i<8. g1 i = g2 i" by simp
  then have h: "sanction_of g1 = sanction_of g2" and d: "sanction_draws g1 = sanction_draws g2"
    using sanction_of_cong by blast+
  have "\<forall>i < 8 * k. rng_drop (sanction_draws g2) g1 i = rng_drop (sanction_draws g2) g2 i"
  proof (intro allI impI)
    fix i assume "i < 8 * k"
    with sanction_draws_le [of g2] have "i + sanction_draws g2 < 8 * Suc k" by simp
    with Suc.prems show "rng_drop (sanction_draws g2) g1 i = rng_drop (sanction_draws g2) g2 i"
      by (simp add: rng_drop_apply)
  qed
  then have "sanctions_from k (rng_drop (sanction_draws g2) g1)
      = sanctions_from k (rng_drop (sanction_draws g2) g2)"
    by (rule Suc.IH)
  with h d show ?case by simp
qed

section \<open>The alias decision\<close>

lemma unit_of_draw_bounds: "0 \<le> unit_of_draw r \<and> unit_of_draw r < 1"
proof -
  have "r mod 2 ^ 53 < (2 ^ 53 :: nat)" by simp
  then have "(of_nat (r mod 2 ^ 53) :: rat) < of_nat (2 ^ 53)" by (simp only: of_nat_less_iff)
  then show ?thesis by (simp add: unit_of_draw_def)
qed

text \<open>On the values of \<^verbatim>\<open>random.random()\<close> the double \<^verbatim>\<open>0.1\<close> and one tenth
  draw the same line.\<close>

lemma threshold_is_tenth: "unit_of_draw r < ALIAS_THRESHOLD \<longleftrightarrow> unit_of_draw r < 1 / 10"
proof -
  have a: "(of_nat k / 2 ^ 53 :: rat) < ALIAS_THRESHOLD
      \<longleftrightarrow> (of_nat (4 * k) :: rat) < of_nat 3602879701896397" for k :: nat
    by (simp add: ALIAS_THRESHOLD_def field_simps)
  have b: "(of_nat k / 2 ^ 53 :: rat) < 1 / 10
      \<longleftrightarrow> (of_nat (10 * k) :: rat) < of_nat 9007199254740992" for k :: nat
    by (simp add: field_simps)
  have c: "4 * k < 3602879701896397 \<longleftrightarrow> 10 * k < 9007199254740992" for k :: nat
    by arith
  show ?thesis unfolding unit_of_draw_def a b of_nat_less_iff by (rule c)
qed

lemma sanction_draws_ge: "6 \<le> sanction_draws g"
  by (simp add: sanction_draws_def)

lemma sanctions_rng_offset: "sanctions_rng k g = rng_drop (sanctions_offset k g) g"
  by (induction k arbitrary: g) (simp_all add: add.commute)

lemma sanctions_offset_Suc:
  "sanctions_offset (Suc k) g = sanctions_offset k g + sanction_draws (sanctions_rng k g)"
proof (induction k arbitrary: g)
  case 0
  show ?case by simp
next
  case (Suc k)
  have "sanctions_offset (Suc (Suc k)) g
      = sanction_draws g + sanctions_offset (Suc k) (rng_drop (sanction_draws g) g)" by simp
  also have "\<dots> = sanction_draws g + (sanctions_offset k (rng_drop (sanction_draws g) g)
      + sanction_draws (sanctions_rng k (rng_drop (sanction_draws g) g)))"
    by (simp only: Suc.IH)
  finally show ?case by simp
qed

lemma sanctions_offset_gap: "j < i \<Longrightarrow> sanctions_offset j g + 6 \<le> sanctions_offset i g"
proof (induction i)
  case 0
  then show ?case by simp
next
  case (Suc i)
  have step: "sanctions_offset i g + 6 \<le> sanctions_offset (Suc i) g"
    unfolding sanctions_offset_Suc using sanction_draws_ge [of "sanctions_rng i g"] by simp
  show ?case
  proof (cases "j = i")
    case True
    with step show ?thesis by simp
  next
    case False
    with Suc.prems have "j < i" by simp
    from Suc.IH [OF this] step show ?thesis by simp
  qed
qed

lemma sanctions_from_nth: "i < k \<Longrightarrow> sanctions_from k g ! i = sanction_of (sanctions_rng i g)"
proof (induction k arbitrary: i g)
  case 0
  then show ?case by simp
next
  case (Suc k)
  show ?case
  proof (cases i)
    case 0
    then show ?thesis by simp
  next
    case (Suc j)
    with Suc.prems have "j < k" by simp
    from Suc.IH [OF this] show ?thesis using Suc by simp
  qed
qed

lemma customers_from_nth: "i < k \<Longrightarrow> customers_from k g ! i = customer_of (rng_drop (4 * i) g)"
proof (induction k arbitrary: i g)
  case 0
  then show ?case by simp
next
  case (Suc k)
  show ?case
  proof (cases i)
    case 0
    then show ?thesis by simp
  next
    case (Suc j)
    with Suc.prems have "j < k" by simp
    from Suc.IH [OF this] show ?thesis using Suc by (simp add: add.commute)
  qed
qed

lemma name_of_draws_form:
  "\<exists>f\<in>set FIRST_NAMES. \<exists>l\<in>set LAST_NAMES. name_of_draws a b = f @ '' '' @ l"
  using first_in_pool [of a] last_in_pool [of b] unfolding name_of_draws_def by blast

section \<open>Printing and parsing a date\<close>

lemma digit_value_digit_char: "digit_value (digit_char k) = Some (k mod 10)"
proof -
  have a: "0 \<le> k mod 10" "k mod 10 < 10" by simp_all
  then have "(48 + k mod 10) mod 256 = 48 + k mod 10" by simp
  then have "of_char (char_of (48 + k mod 10) :: char) = 48 + k mod 10" by simp
  with a show ?thesis by (simp add: digit_value_def digit_char_def Let_def)
qed

lemma two_digits:
  fixes k :: int
  assumes "0 \<le> k" "k < 100"
  shows "10 * (k div 10 mod 10) + k mod 10 = k"
proof -
  from assms have "k div 10 < 10" by simp
  moreover from assms have "0 \<le> k div 10" by simp
  ultimately have "k div 10 mod 10 = k div 10" by simp
  then show ?thesis by simp
qed

lemma digits_arith:
  fixes k :: int
  assumes "k = 10 * p1 + r0" "p1 = 10 * p2 + r1" "p2 = 10 * p3 + r2"
  shows "10 * (10 * (10 * p3 + r2) + r1) + r0 = k"
  using assms by simp

lemma four_digits:
  fixes k :: int
  assumes "0 \<le> k" "k < 10000"
  shows "10 * (10 * (10 * (k div 1000 mod 10) + k div 100 mod 10) + k div 10 mod 10) + k mod 10 = k"
proof -
  define p1 where "p1 = k div 10"
  define p2 where "p2 = p1 div 10"
  define p3 where "p3 = p2 div 10"
  have d2: "k div 100 = p2" unfolding p2_def p1_def by (simp add: zdiv_zmult2_eq)
  have d3: "k div 1000 = p3" unfolding p3_def p2_def p1_def by (simp add: zdiv_zmult2_eq)
  from assms have "0 \<le> k div 1000" "k div 1000 < 10" by simp_all
  then have b3: "0 \<le> p3" "p3 < 10" unfolding d3 by simp_all
  then have m3: "p3 mod 10 = p3" by simp
  have e1: "k = 10 * p1 + k mod 10" unfolding p1_def by (simp only: mult_div_mod_eq)
  have e2: "p1 = 10 * p2 + p1 mod 10" unfolding p2_def by (simp only: mult_div_mod_eq)
  have e3: "p2 = 10 * p3 + p2 mod 10" unfolding p3_def by (simp only: mult_div_mod_eq)
  have "10 * (10 * (10 * p3 + p2 mod 10) + p1 mod 10) + k mod 10 = k"
    by (rule digits_arith [OF e1 e2 e3])
  then show ?thesis unfolding d3 d2 m3 p1_def [symmetric] .
qed

lemma int_of_digits_pad2:
  assumes "0 \<le> k" "k < 100"
  shows "int_of_digits 0 (pad2 k) = Some k"
proof -
  have "int_of_digits 0 (pad2 k) = Some (10 * (k div 10 mod 10) + k mod 10)"
    by (simp add: pad2_def digit_value_digit_char)
  then show ?thesis by (simp only: two_digits [OF assms])
qed

lemma int_of_digits_pad4:
  assumes "0 \<le> k" "k < 10000"
  shows "int_of_digits 0 (pad4 k) = Some k"
proof -
  have "int_of_digits 0 (pad4 k)
      = Some (10 * (10 * (10 * (k div 1000 mod 10) + k div 100 mod 10) + k div 10 mod 10) + k mod 10)"
    by (simp add: pad4_def digit_value_digit_char)
  then show ?thesis by (simp only: four_digits [OF assms])
qed

text \<open>A date of a year from 1000 on is read back from what \<^verbatim>\<open>strftime\<close> printed.\<close>

lemma fromisoformat_strftime:
  assumes "1000 \<le> y" "y \<le> 9999" "0 \<le> m" "m \<le> 12" "0 \<le> d" "d \<le> 31"
  shows "fromisoformat (strftime_ymd (Date y m d)) = datetime y m d"
proof -
  have l: "length (pad4 y) = 4" "length (pad2 m) = 2" "length (pad2 d) = 2"
    by (simp_all add: pad4_def pad2_def)
  have y: "int_of_digits 0 (pad4 y) = Some y" by (rule int_of_digits_pad4) (use assms in simp_all)
  have m: "int_of_digits 0 (pad2 m) = Some m" by (rule int_of_digits_pad2) (use assms in simp_all)
  have d: "int_of_digits 0 (pad2 d) = Some d" by (rule int_of_digits_pad2) (use assms in simp_all)
  define s where "s = strftime_ymd (Date y m d)"
  have s: "s = pad4 y @ CHR ''-'' # pad2 m @ CHR ''-'' # pad2 d"
    using assms(1) by (simp add: s_def strftime_ymd_def year_digits_def)
  have len: "length s = 10" by (simp add: s l)
  have h4: "s ! 4 = CHR ''-''" by (simp add: s nth_append l)
  have h7: "s ! 7 = CHR ''-''" by (simp add: s nth_append l nth_Cons')
  have t4: "take 4 s = pad4 y" by (simp add: s l)
  have t2: "take 2 (drop 5 s) = pad2 m" by (simp add: s l)
  have d8: "drop 8 s = pad2 d" by (simp add: s l)
  show ?thesis
    unfolding s_def [symmetric] fromisoformat_def by (simp add: len h4 h7 t4 t2 d8 y m d)
qed

lemma days_in_month_le: "1 \<le> m \<Longrightarrow> m \<le> 12 \<Longrightarrow> days_in_month y m \<le> 31"
proof -
  assume a: "1 \<le> m" "m \<le> 12"
  then have "m = 1 \<or> m = 2 \<or> m = 3 \<or> m = 4 \<or> m = 5 \<or> m = 6 \<or> m = 7 \<or> m = 8 \<or> m = 9
      \<or> m = 10 \<or> m = 11 \<or> m = 12" by arith
  then show ?thesis
    by (elim disjE) (simp_all add: days_in_month_def DAYS_IN_MONTH_def)
qed

lemma fromisoformat_valid:
  assumes "1000 \<le> y" "y \<le> 9999" "1 \<le> m" "m \<le> 12" "1 \<le> d" "d \<le> days_in_month y m"
  shows "fromisoformat (strftime_ymd (Date y m d)) = Inr (Date y m d)"
proof -
  from days_in_month_le [OF assms(3,4), of y] assms(6) have "d \<le> 31" by simp
  with assms have "fromisoformat (strftime_ymd (Date y m d)) = datetime y m d"
    by (intro fromisoformat_strftime) simp_all
  also have "\<dots> = Inr (Date y m d)" using assms by (simp add: datetime_def MINYEAR_def MAXYEAR_def)
  finally show ?thesis .
qed

lemma dob_of_draw_parse:
  "\<exists>y m d. fromisoformat (dob_of_draw r) = Inr (Date y m d) \<and> 1940 \<le> y \<and> y \<le> 2005"
proof -
  from random_date_default [of "constant_rng r"] obtain y m d where
    o: "ord2ymd (708205 + int (r mod 24107)) = (y, m, d)"
    and b: "1940 \<le> y" "y \<le> 2005" "1 \<le> m" "m \<le> 12" "1 \<le> d" "d \<le> days_in_month y m"
    unfolding constant_rng_def by blast
  have "fromisoformat (strftime_ymd (Date y m d)) = Inr (Date y m d)"
    by (rule fromisoformat_valid) (use b in simp_all)
  with o b show ?thesis by (simp add: dob_of_draw_def)
qed

lemma anchor_dob_parse: "fromisoformat ''1995-07-23'' = Inr (Date 1995 7 23)"
  by (simp add: fromisoformat_def digit_value_def datetime_def MINYEAR_def MAXYEAR_def
      days_in_month_def DAYS_IN_MONTH_def Let_def)

lemma length_strftime: "1000 \<le> y \<Longrightarrow> length (strftime_ymd (Date y m d)) = 10"
  by (simp add: strftime_ymd_def year_digits_def pad4_def pad2_def)

text \<open>The dates of birth in the generated records.\<close>

lemma customer_of_dob:
  "\<exists>s y m d. map_of (customer_of h) ''date_of_birth'' = Some s
     \<and> fromisoformat s = Inr (Date y m d) \<and> 1940 \<le> y \<and> y \<le> 2005"
  using dob_of_draw_parse [of "h 2"] by (simp add: customer_of_def)

lemma sanction_of_dob:
  "\<exists>s y m d. map_of (sanction_of h) ''date_of_birth'' = Some s
     \<and> fromisoformat s = Inr (Date y m d) \<and> 1940 \<le> y \<and> y \<le> 2005"
  using dob_of_draw_parse [of "h 2"] by (simp add: sanction_of_def)

lemma anchor_customer_dob:
  "\<exists>s y m d. map_of christina_customer ''date_of_birth'' = Some s
     \<and> fromisoformat s = Inr (Date y m d) \<and> 1940 \<le> y \<and> y \<le> 2005"
  using anchor_dob_parse by (simp add: christina_customer_def)

lemma anchor_sanction_dob:
  "\<exists>s y m d. map_of christina_sanction ''date_of_birth'' = Some s
     \<and> fromisoformat s = Inr (Date y m d) \<and> 1940 \<le> y \<and> y \<le> 2005"
  using anchor_dob_parse by (simp add: christina_sanction_def)

lemma customers_dob:
  "\<forall>r\<in>set ((if b then [christina_customer] else []) @ customers_from k g).
     \<exists>s y m d. map_of r ''date_of_birth'' = Some s
       \<and> fromisoformat s = Inr (Date y m d) \<and> 1940 \<le> y \<and> y \<le> 2005"
proof
  fix r assume "r \<in> set ((if b then [christina_customer] else []) @ customers_from k g)"
  then have "r = christina_customer \<or> r \<in> set (customers_from k g)" by (auto split: if_splits)
  then consider "r = christina_customer" | h where "r = customer_of h"
    using customers_from_set [of r k g] by blast
  then show "\<exists>s y m d. map_of r ''date_of_birth'' = Some s
       \<and> fromisoformat s = Inr (Date y m d) \<and> 1940 \<le> y \<and> y \<le> 2005"
  proof cases
    case 1
    show ?thesis unfolding 1 by (rule anchor_customer_dob)
  next
    case 2
    show ?thesis unfolding 2 by (rule customer_of_dob)
  qed
qed

lemma sanctions_dob:
  "\<forall>r\<in>set ((if b then [christina_sanction] else []) @ sanctions_from k g).
     \<exists>s y m d. map_of r ''date_of_birth'' = Some s
       \<and> fromisoformat s = Inr (Date y m d) \<and> 1940 \<le> y \<and> y \<le> 2005"
proof
  fix r assume "r \<in> set ((if b then [christina_sanction] else []) @ sanctions_from k g)"
  then have "r = christina_sanction \<or> r \<in> set (sanctions_from k g)" by (auto split: if_splits)
  then consider "r = christina_sanction" | h where "r = sanction_of h"
    using sanctions_from_set [of r k g] by blast
  then show "\<exists>s y m d. map_of r ''date_of_birth'' = Some s
       \<and> fromisoformat s = Inr (Date y m d) \<and> 1940 \<le> y \<and> y \<le> 2005"
  proof cases
    case 1
    show ?thesis unfolding 1 by (rule anchor_sanction_dob)
  next
    case 2
    show ?thesis unfolding 2 by (rule sanction_of_dob)
  qed
qed

section \<open>What the writer puts into the file\<close>





















section \<open>Reading back what the writer wrote\<close>




























section \<open>The claims\<close>

text \<open>
  C10. For every requested count that is zero or negative, with the anchor flag set,
  both generators raise nothing and return exactly one record, the anchor: the filling
  loop runs zero times and no random draw is consumed. The result is neither empty nor
  of the requested length.
\<close>

theorem C10_anchor_only_for_nonpositive_count:
  assumes "count \<le> 0"
  shows "generate_customers count True g = Inr ([christina_customer], g)
       \<and> generate_sanctions count True g = Inr ([christina_sanction], g)
       \<and> length [christina_customer] = 1 \<and> int (length [christina_sanction]) \<noteq> count"
  using assms by (simp add: generate_customers_def generate_sanctions_def)

theorem C10_anchor_only_witness:
  "(0::int) \<le> 0
   \<and> generate_customers 0 True (constant_rng 7) = Inr ([christina_customer], constant_rng 7)
   \<and> generate_sanctions 0 True (constant_rng 7) = Inr ([christina_sanction], constant_rng 7)"
  using C10_anchor_only_for_nonpositive_count [of 0 "constant_rng 7"] by simp



text \<open>
  C2, as the code has it. With count \<open>0\<close> and the anchor requested, generation neither
  fails nor returns an empty collection: on every call, whatever the random source, it
  returns the one anchor record and consumes no draw.
\<close>

theorem C2_zero_count_counterexample:
  "\<not> (isl (generate_customers 0 True (constant_rng 0))
      \<or> fst (projr (generate_customers 0 True (constant_rng 0))) = [])"
  by (simp add: generate_customers_def)

theorem C2_zero_count_returns_anchor:
  "generate_customers 0 True g = Inr ([christina_customer], g)
   \<and> generate_sanctions 0 True g = Inr ([christina_sanction], g)"
  by (simp add: generate_customers_def generate_sanctions_def)

text \<open>
  C3, as the code has it. A negative count is not reported: for every negative count both
  generators return normally, with the anchor alone when it is requested and with no
  record otherwise, and consume no draw.
\<close>

theorem C3_negative_count_counterexample:
  "\<not> isl (generate_customers (- 5) True (constant_rng 0))
   \<and> \<not> isl (generate_sanctions (- 5) True (constant_rng 0))"
  by (simp add: generate_customers_def generate_sanctions_def)

theorem C3_negative_count_returns_normally:
  assumes "count < 0"
  shows "generate_customers count include_christina g
           = Inr (if include_christina then [christina_customer] else [], g)
       \<and> generate_sanctions count include_christina g
           = Inr (if include_christina then [christina_sanction] else [], g)"
  using assms by (simp add: generate_customers_def generate_sanctions_def)

theorem C3_negative_count_witness:
  "(- 5 :: int) < 0
   \<and> generate_customers (- 5) True (constant_rng 0) = Inr ([christina_customer], constant_rng 0)
   \<and> generate_sanctions (- 5) False (constant_rng 0) = Inr ([], constant_rng 0)"
  using C3_negative_count_returns_normally [of "- 5" True "constant_rng 0"]
    C3_negative_count_returns_normally [of "- 5" False "constant_rng 0"]
  by simp

text \<open>
  C6. With the anchor flag set the anchor is element 0 of either collection for every
  count and every random source, so no draw selects it; and the filling loop only
  appends: whatever list it starts from is a prefix of its result, so the anchor is not
  overwritten.
\<close>

theorem C6_anchor_kept_at_index_0:
  "\<exists>cs g1 ss g2 new g3 new' g4.
       generate_customers count True g = Inr (cs, g1) \<and> cs \<noteq> [] \<and> cs ! 0 = christina_customer
     \<and> generate_sanctions count True g = Inr (ss, g2) \<and> ss \<noteq> [] \<and> ss ! 0 = christina_sanction
     \<and> customers_loop k acc g = Inr (acc @ new, g3) \<and> length new = k
     \<and> sanctions_loop k acc' g = Inr (acc' @ new', g4) \<and> length new' = k"
  by (simp add: generate_customers_closed generate_sanctions_closed customers_loop_closed
      sanctions_loop_closed)

text \<open>
  C7. In every row of either collection the country is one of the fifty country codes,
  and in every watchlist row the program is one of the eight program labels.
\<close>

theorem C7_country_and_program_in_pools:
  "\<exists>cs g1 ss g2.
       generate_customers count include_christina g = Inr (cs, g1)
     \<and> (\<forall>r\<in>set cs. \<exists>c\<in>set COUNTRIES. map_of r ''country'' = Some c)
     \<and> generate_sanctions count include_christina h = Inr (ss, g2)
     \<and> (\<forall>r\<in>set ss. (\<exists>c\<in>set COUNTRIES. map_of r ''country'' = Some c)
                    \<and> (\<exists>p\<in>set PROGRAMS. map_of r ''program'' = Some p))"
proof -
  have c: "\<exists>c\<in>set COUNTRIES. map_of r ''country'' = Some c"
    if "r \<in> set ((if include_christina then [christina_customer] else []) @ customers_from n g)"
    for r n
  proof (cases "r \<in> set (customers_from n g)")
    case True
    then obtain x where "r = customer_of x" using customers_from_set by blast
    then show ?thesis using customer_of_country by simp
  next
    case False
    with that have "r = christina_customer" by (simp split: if_splits)
    then show ?thesis using anchor_country by (simp add: christina_customer_def)
  qed
  have s: "(\<exists>c\<in>set COUNTRIES. map_of r ''country'' = Some c)
         \<and> (\<exists>p\<in>set PROGRAMS. map_of r ''program'' = Some p)"
    if "r \<in> set ((if include_christina then [christina_sanction] else []) @ sanctions_from n h)"
    for r n
  proof (cases "r \<in> set (sanctions_from n h)")
    case True
    then obtain x where "r = sanction_of x" using sanctions_from_set by blast
    then show ?thesis using sanction_of_country sanction_of_program by simp
  next
    case False
    with that have "r = christina_sanction" by (simp split: if_splits)
    then show ?thesis using anchor_country anchor_program by (simp add: christina_sanction_def)
  qed
  show ?thesis
    unfolding generate_customers_closed generate_sanctions_closed
    using c s by blast
qed

theorem C7_country_and_program_witness:
  "\<exists>cs g1 ss g2.
       generate_customers 2 True (constant_rng 5) = Inr (cs, g1) \<and> length cs = 2
     \<and> (\<forall>r\<in>set cs. \<exists>c\<in>set COUNTRIES. map_of r ''country'' = Some c)
     \<and> generate_sanctions 2 True (constant_rng 5) = Inr (ss, g2) \<and> length ss = 2
     \<and> (\<forall>r\<in>set ss. (\<exists>c\<in>set COUNTRIES. map_of r ''country'' = Some c)
                    \<and> (\<exists>p\<in>set PROGRAMS. map_of r ''program'' = Some p))"
  using C7_country_and_program_in_pools [of 2 True "constant_rng 5" "constant_rng 5"]
  by (auto simp add: generate_customers_closed generate_sanctions_closed)

text \<open>
  C9. The collections are functions of the count, the flag and the draws: two calls with
  the same count and flag return the same collection whenever their random sources agree
  on the draws the generation can read, at most eight for each requested record; identical
  sources are the special case.
\<close>

theorem C9_deterministic_given_draws:
  assumes "\<forall>i < 8 * nat count. g1 i = g2 i"
  shows "\<exists>cs ss r1 r2 r3 r4.
           generate_customers count include_christina g1 = Inr (cs, r1)
         \<and> generate_customers count include_christina g2 = Inr (cs, r2)
         \<and> generate_sanctions count include_christina g1 = Inr (ss, r3)
         \<and> generate_sanctions count include_christina g2 = Inr (ss, r4)"
proof -
  define k where "k = nat (count - (if include_christina then 1 else 0))"
  have k: "k \<le> nat count" unfolding k_def by (rule nat_mono) simp
  from assms k have "\<forall>i < 4 * k. g1 i = g2 i" by simp
  then have c: "customers_from k g1 = customers_from k g2" by (rule customers_from_cong)
  from assms k have "\<forall>i < 8 * k. g1 i = g2 i" by simp
  then have s: "sanctions_from k g1 = sanctions_from k g2" by (rule sanctions_from_cong)
  show ?thesis
    unfolding generate_customers_closed generate_sanctions_closed k_def [symmetric]
    using c s by simp
qed

theorem C9_deterministic_witness:
  "\<exists>cs ss r1 r2 r3 r4.
       generate_customers 3 True (constant_rng 4) = Inr (cs, r1)
     \<and> generate_customers 3 True (\<lambda>i. if i < 24 then 4 else 9) = Inr (cs, r2)
     \<and> generate_sanctions 3 True (constant_rng 4) = Inr (ss, r3)
     \<and> generate_sanctions 3 True (\<lambda>i. if i < 24 then 4 else 9) = Inr (ss, r4)"
  using C9_deterministic_given_draws [of 3 "constant_rng 4" "\<lambda>i. if i < 24 then 4 else 9" True]
  by (simp add: constant_rng_def)

text \<open>
  C5. Let record \<open>i\<close> be one of the records that \<open>generate_sanctions\<close> synthesises (the
  anchor, when present, comes before them). Its alias is decided by one call of
  \<^verbatim>\<open>random.random()\<close>, the sixth draw of its pass through the loop: the value \<open>u\<close> lies
  in \<open>[0, 1)\<close>, the comparison with the float \<^verbatim>\<open>0.1\<close> is the comparison with one
  tenth, and the field \<^verbatim>\<open>aliases\<close> is a string: one name, a given name, a space and a
  family name from the pools, built by the call that built the record's \<^verbatim>\<open>name\<close>, when
  \<open>u\<close> is below one tenth, and the empty string otherwise. The draw that decides lies
  after all the draws of the passes before, so every record has a draw of its own; that
  the draws are uniform and independent is the promise of the library's generator.
\<close>

theorem C5_alias_decided_by_one_draw:
  assumes "i < nat (count - (if include_christina then 1 else 0))"
  shows "\<exists>ss g' r name gn u gu.
      generate_sanctions count include_christina g = Inr (ss, g')
    \<and> r = ss ! (if include_christina then Suc i else i)
    \<and> random_name (rng_drop (sanctions_offset i g) g) = Inr (name, gn)
    \<and> map_of r ''name'' = Some name
    \<and> py_random (rng_drop (sanctions_offset i g + 5) g) = (u, gu)
    \<and> 0 \<le> u \<and> u < 1
    \<and> (u < ALIAS_THRESHOLD \<longleftrightarrow> u < 1 / 10)
    \<and> (if u < 1 / 10
       then \<exists>alias ga. random_name gu = Inr (alias, ga)
              \<and> map_of r ''aliases'' = Some alias
              \<and> (\<exists>f\<in>set FIRST_NAMES. \<exists>l\<in>set LAST_NAMES. alias = f @ '' '' @ l)
       else map_of r ''aliases'' = Some '''')
    \<and> (\<forall>j<i. sanctions_offset j g + 5 < sanctions_offset i g)"
proof -
  define k where "k = nat (count - (if include_christina then 1 else 0))"
  define h where "h = rng_drop (sanctions_offset i g) g"
  define ss where "ss = (if include_christina then [christina_sanction] else []) @ sanctions_from k g"
  define r where "r = ss ! (if include_christina then Suc i else i)"
  define u where "u = unit_of_draw (h 5)"
  from assms have ik: "i < k" by (simp add: k_def)
  have gen: "generate_sanctions count include_christina g = Inr (ss, sanctions_rng k g)"
    by (simp add: generate_sanctions_closed ss_def k_def)
  have "r = sanctions_from k g ! i" by (simp add: r_def ss_def)
  then have r: "r = sanction_of h"
    by (simp add: sanctions_from_nth [OF ik] sanctions_rng_offset h_def)
  have nm: "random_name h = Inr (name_of_draws (h 0) (h 1), rng_drop 2 h)"
    by (rule random_name_eq)
  have rn: "map_of r ''name'' = Some (name_of_draws (h 0) (h 1))"
    by (simp add: r sanction_of_def)
  have "py_random (rng_drop 5 h) = (u, rng_drop 1 (rng_drop 5 h))"
    by (simp add: py_random_eq u_def rng_drop_apply)
  then have pr: "py_random (rng_drop (sanctions_offset i g + 5) g) = (u, rng_drop 6 h)"
    by (simp add: h_def add.commute)
  have ub: "0 \<le> u" "u < 1" using unit_of_draw_bounds [of "h 5"] by (simp_all add: u_def)
  have th: "u < ALIAS_THRESHOLD \<longleftrightarrow> u < 1 / 10" unfolding u_def by (rule threshold_is_tenth)
  have al: "random_name (rng_drop 6 h) = Inr (name_of_draws (h 6) (h 7), rng_drop 8 h)"
    by (simp add: random_name_eq rng_drop_apply)
  have ra: "map_of r ''aliases'' = Some (if u < 1 / 10 then name_of_draws (h 6) (h 7) else '''')"
    by (simp add: r sanction_of_def u_def [symmetric] th)
  have dec: "if u < 1 / 10
       then \<exists>alias ga. random_name (rng_drop 6 h) = Inr (alias, ga)
              \<and> map_of r ''aliases'' = Some alias
              \<and> (\<exists>f\<in>set FIRST_NAMES. \<exists>l\<in>set LAST_NAMES. alias = f @ '' '' @ l)
       else map_of r ''aliases'' = Some ''''"
    using al ra name_of_draws_form [of "h 6" "h 7"] by simp
  have gap: "\<forall>j<i. sanctions_offset j g + 5 < sanctions_offset i g"
  proof (intro allI impI)
    fix j assume "j < i"
    from sanctions_offset_gap [OF this, of g] show "sanctions_offset j g + 5 < sanctions_offset i g"
      by simp
  qed
  show ?thesis
  proof (intro exI conjI)
    show "generate_sanctions count include_christina g = Inr (ss, sanctions_rng k g)" by (rule gen)
    show "r = ss ! (if include_christina then Suc i else i)" by (rule r_def)
    show "random_name (rng_drop (sanctions_offset i g) g)
        = Inr (name_of_draws (h 0) (h 1), rng_drop 2 h)" using nm by (simp only: h_def)
    show "map_of r ''name'' = Some (name_of_draws (h 0) (h 1))" by (rule rn)
    show "py_random (rng_drop (sanctions_offset i g + 5) g) = (u, rng_drop 6 h)" by (rule pr)
    show "0 \<le> u" "u < 1" by (rule ub)+
    show "u < ALIAS_THRESHOLD \<longleftrightarrow> u < 1 / 10" by (rule th)
    show "if u < 1 / 10
       then \<exists>alias ga. random_name (rng_drop 6 h) = Inr (alias, ga)
              \<and> map_of r ''aliases'' = Some alias
              \<and> (\<exists>f\<in>set FIRST_NAMES. \<exists>l\<in>set LAST_NAMES. alias = f @ '' '' @ l)
       else map_of r ''aliases'' = Some ''''" by (rule dec)
    show "\<forall>j<i. sanctions_offset j g + 5 < sanctions_offset i g" by (rule gap)
  qed
qed

theorem C5_alias_witness:
  "\<exists>ss g' r name gn u gu.
      generate_sanctions 3 True (constant_rng 7) = Inr (ss, g')
    \<and> r = ss ! (if True then Suc 1 else 1)
    \<and> random_name (rng_drop (sanctions_offset 1 (constant_rng 7)) (constant_rng 7)) = Inr (name, gn)
    \<and> map_of r ''name'' = Some name
    \<and> py_random (rng_drop (sanctions_offset 1 (constant_rng 7) + 5) (constant_rng 7)) = (u, gu)
    \<and> 0 \<le> u \<and> u < 1
    \<and> (u < ALIAS_THRESHOLD \<longleftrightarrow> u < 1 / 10)
    \<and> (if u < 1 / 10
       then \<exists>alias ga. random_name gu = Inr (alias, ga)
              \<and> map_of r ''aliases'' = Some alias
              \<and> (\<exists>f\<in>set FIRST_NAMES. \<exists>l\<in>set LAST_NAMES. alias = f @ '' '' @ l)
       else map_of r ''aliases'' = Some '''')
    \<and> (\<forall>j<1. sanctions_offset j (constant_rng 7) + 5 < sanctions_offset 1 (constant_rng 7))"
  by (rule C5_alias_decided_by_one_draw [of 1 3 True "constant_rng 7"]) simp

text \<open>
  C4. For years \<open>ys \<le> ye\<close> from 1000 to 9999, \<open>random_date ys ye\<close> raises nothing. With
  \<open>span\<close> the number of days from the first of January of \<open>ys\<close> to the 31st of December of
  \<open>ye\<close>, it takes the offset from \<^verbatim>\<open>random.randint(0, span)\<close>, which is one draw
  reduced modulo \<open>span + 1\<close> and so a number between \<open>0\<close> and \<open>span\<close>; that the draw is
  uniform is the promise of the library. It returns the date that many days after the
  first of January of \<open>ys\<close>, printed as ten characters that \<^verbatim>\<open>date.fromisoformat\<close>
  reads back as the same date, of a year between \<open>ys\<close> and \<open>ye\<close>. Between 1940 and 2005
  the span is 24106 days, and every date of birth in a collection that a generator
  returns, the anchor's included, is read back as a date of a year from 1940 to 2005.
\<close>

theorem C4_random_date_within_bounds:
  assumes "1000 \<le> ys" "ys \<le> ye" "ye \<le> 9999"
  shows "\<exists>span off g' s y m d cs g1 ss g2.
      span = delta_days (Date ye 12 31) (Date ys 1 1) \<and> 0 \<le> span
    \<and> randint 0 span g = Inr (off, g') \<and> off = int (g 0 mod nat (span + 1))
    \<and> 0 \<le> off \<and> off \<le> span
    \<and> random_date ys ye g = Inr (s, g')
    \<and> s = strftime_ymd (Date y m d)
    \<and> toordinal (Date y m d) = toordinal (Date ys 1 1) + off
    \<and> length s = 10
    \<and> fromisoformat s = Inr (Date y m d)
    \<and> ys \<le> y \<and> y \<le> ye
    \<and> delta_days (Date 2005 12 31) (Date 1940 1 1) = 24106
    \<and> generate_customers count include_christina h = Inr (cs, g1)
    \<and> (\<forall>r\<in>set cs. \<exists>s y m d. map_of r ''date_of_birth'' = Some s
           \<and> fromisoformat s = Inr (Date y m d) \<and> 1940 \<le> y \<and> y \<le> 2005)
    \<and> generate_sanctions count include_christina h = Inr (ss, g2)
    \<and> (\<forall>r\<in>set ss. \<exists>s y m d. map_of r ''date_of_birth'' = Some s
           \<and> fromisoformat s = Inr (Date y m d) \<and> 1940 \<le> y \<and> y \<le> 2005)"
proof -
  define span where "span = delta_days (Date ye 12 31) (Date ys 1 1)"
  define off where "off = int (g 0 mod nat (span + 1))"
  define k where "k = nat (count - (if include_christina then 1 else 0))"
  from assms have b: "MINYEAR \<le> ys" "ye \<le> MAXYEAR" by (simp_all add: MINYEAR_def MAXYEAR_def)
  from random_date_between [OF b(1) assms(2) b(2), of g] obtain y m d where
    rd: "random_date ys ye g = Inr (strftime_ymd (Date y m d), rng_drop 1 g)"
    and span0: "0 \<le> span"
    and ord: "ymd2ord y m d = ymd2ord ys 1 1 + off"
    and yr: "ys \<le> y" "y \<le> ye"
    and md: "1 \<le> m" "m \<le> 12" "1 \<le> d" "d \<le> days_in_month y m"
    unfolding span_def off_def by blast
  have ri: "randint 0 span g = Inr (off, rng_drop 1 g)"
    using span0 by (simp add: randint_def Let_def randbelow_def next_draw_def off_def rng_drop_def)
  have off0: "0 \<le> off" by (simp add: off_def)
  have "g 0 mod nat (span + 1) < nat (span + 1)" using span0 by simp
  then have offs: "off \<le> span" unfolding off_def using span0 by linarith
  have to: "toordinal (Date y m d) = toordinal (Date ys 1 1) + off"
    using ord by (simp add: toordinal_def)
  from assms yr have y4: "1000 \<le> y" "y \<le> 9999" by simp_all
  have len: "length (strftime_ymd (Date y m d)) = 10" by (rule length_strftime [OF y4(1)])
  have iso: "fromisoformat (strftime_ymd (Date y m d)) = Inr (Date y m d)"
    by (rule fromisoformat_valid [OF y4 md])
  have gc: "generate_customers count include_christina h
      = Inr ((if include_christina then [christina_customer] else []) @ customers_from k h,
             rng_drop (4 * k) h)"
    by (simp add: generate_customers_closed k_def)
  have gs: "generate_sanctions count include_christina h
      = Inr ((if include_christina then [christina_sanction] else []) @ sanctions_from k h,
             sanctions_rng k h)"
    by (simp add: generate_sanctions_closed k_def)
  show ?thesis
  proof (intro exI conjI)
    show "span = delta_days (Date ye 12 31) (Date ys 1 1)" by (rule span_def)
    show "0 \<le> span" by (rule span0)
    show "randint 0 span g = Inr (off, rng_drop 1 g)" by (rule ri)
    show "off = int (g 0 mod nat (span + 1))" by (rule off_def)
    show "0 \<le> off" by (rule off0)
    show "off \<le> span" by (rule offs)
    show "random_date ys ye g = Inr (strftime_ymd (Date y m d), rng_drop 1 g)" by (rule rd)
    show "strftime_ymd (Date y m d) = strftime_ymd (Date y m d)" by (rule refl)
    show "toordinal (Date y m d) = toordinal (Date ys 1 1) + off" by (rule to)
    show "length (strftime_ymd (Date y m d)) = 10" by (rule len)
    show "fromisoformat (strftime_ymd (Date y m d)) = Inr (Date y m d)" by (rule iso)
    show "ys \<le> y" "y \<le> ye" by (rule yr)+
    show "delta_days (Date 2005 12 31) (Date 1940 1 1) = 24106" by (rule span_default)
    show "generate_customers count include_christina h
      = Inr ((if include_christina then [christina_customer] else []) @ customers_from k h,
             rng_drop (4 * k) h)" by (rule gc)
    show "\<forall>r\<in>set ((if include_christina then [christina_customer] else []) @ customers_from k h).
        \<exists>s y m d. map_of r ''date_of_birth'' = Some s
           \<and> fromisoformat s = Inr (Date y m d) \<and> 1940 \<le> y \<and> y \<le> 2005"
      by (rule customers_dob)
    show "generate_sanctions count include_christina h
      = Inr ((if include_christina then [christina_sanction] else []) @ sanctions_from k h,
             sanctions_rng k h)" by (rule gs)
    show "\<forall>r\<in>set ((if include_christina then [christina_sanction] else []) @ sanctions_from k h).
        \<exists>s y m d. map_of r ''date_of_birth'' = Some s
           \<and> fromisoformat s = Inr (Date y m d) \<and> 1940 \<le> y \<and> y \<le> 2005"
      by (rule sanctions_dob)
  qed
qed

theorem C4_random_date_witness:
  "\<exists>span off g' s y m d cs g1 ss g2.
      span = delta_days (Date 2005 12 31) (Date 1940 1 1) \<and> 0 \<le> span
    \<and> randint 0 span (constant_rng 24106) = Inr (off, g')
    \<and> off = int (constant_rng 24106 0 mod nat (span + 1))
    \<and> 0 \<le> off \<and> off \<le> span
    \<and> random_date 1940 2005 (constant_rng 24106) = Inr (s, g')
    \<and> s = strftime_ymd (Date y m d)
    \<and> toordinal (Date y m d) = toordinal (Date 1940 1 1) + off
    \<and> length s = 10
    \<and> fromisoformat s = Inr (Date y m d)
    \<and> 1940 \<le> y \<and> y \<le> 2005
    \<and> delta_days (Date 2005 12 31) (Date 1940 1 1) = 24106
    \<and> generate_customers 3 True (constant_rng 24106) = Inr (cs, g1)
    \<and> (\<forall>r\<in>set cs. \<exists>s y m d. map_of r ''date_of_birth'' = Some s
           \<and> fromisoformat s = Inr (Date y m d) \<and> 1940 \<le> y \<and> y \<le> 2005)
    \<and> generate_sanctions 3 True (constant_rng 24106) = Inr (ss, g2)
    \<and> (\<forall>r\<in>set ss. \<exists>s y m d. map_of r ''date_of_birth'' = Some s
           \<and> fromisoformat s = Inr (Date y m d) \<and> 1940 \<le> y \<and> y \<le> 2005)"
  by (rule C4_random_date_within_bounds
      [where ys = 1940 and ye = 2005 and g = "constant_rng 24106" and count = 3
         and include_christina = True and h = "constant_rng 24106"]) simp_all



end
